theory Spec2Isabelle
  imports Complex_Main
begin

section \<open>Numbers, arrays and faults\<close>

text \<open>
  The numeric transforms of the digit-recognition demo (\<^verbatim>\<open>src/lib/melSpectrogram.ts\<close>,
  \<^verbatim>\<open>src/lib/audio.ts\<close>, \<^verbatim>\<open>src/lib/preprocessMnist.ts\<close> and the scoring helpers of the
  pages) are embedded as HOL functions. JavaScript numbers and the entries of a
  \<^verbatim>\<open>Float32Array\<close> are modelled as \<^typ>\<open>real\<close>: every value is finite and arithmetic is
  exact, so rounding, infinities and NaN are outside the model, except where a rounded
  product or quotient is turned into an integer: those operations are a parameter.
  Array lengths, loop counters and indices are natural numbers or integers. Where the
  source would read a value that is not a number, raise, or not return, the model
  returns a \<open>fault\<close>.
\<close>

datatype fault =
    TypeError              \<comment> \<open>property access on \<^verbatim>\<open>undefined\<close>\<close>
  | NotANumber             \<comment> \<open>an out-of-range read (\<^verbatim>\<open>undefined\<close>) enters the arithmetic\<close>
  | DoesNotEnd             \<comment> \<open>a loop whose counter never reaches its bound\<close>
  | EngineFailure          \<comment> \<open>the external inference call rejects\<close>
  | CouldNotReadCanvas     \<comment> \<open>\<^verbatim>\<open>throw new Error('Could not read canvas')\<close>\<close>
  | CouldNotCreatePreview  \<comment> \<open>\<^verbatim>\<open>throw new Error('Could not create preview canvas')\<close>\<close>
  | CouldNotCreateCrop     \<comment> \<open>\<^verbatim>\<open>throw new Error('Could not create crop canvas')\<close>\<close>
  | CouldNotCreateScaled   \<comment> \<open>\<^verbatim>\<open>throw new Error('Could not create scaled canvas')\<close>\<close>
  | IndexSizeError         \<comment> \<open>\<^verbatim>\<open>getImageData\<close> with a zero width or height\<close>

text \<open>A counted loop whose body may fault: the first fault ends the loop.\<close>

fun iterate :: "('i \<Rightarrow> 's \<Rightarrow> fault + 's) \<Rightarrow> 'i list \<Rightarrow> 's \<Rightarrow> fault + 's" where
  "iterate body [] s = Inr s"
| "iterate body (x # xs) s =
     (case body x s of Inl e \<Rightarrow> Inl e | Inr s' \<Rightarrow> iterate body xs s')"

section \<open>Scoring utilities\<close>

subsection \<open>Softmax (\<^verbatim>\<open>VoicePage.tsx\<close>, \<^verbatim>\<open>HandwritingPage.tsx\<close>)\<close>

text \<open>
  \<^verbatim>\<open>Math.max(...xs)\<close>: the largest argument, and \<^verbatim>\<open>-Infinity\<close> (here \<open>None\<close>) when
  there is none.
\<close>

definition math_max :: "real list \<Rightarrow> real option" where
  "math_max xs =
     foldl (\<lambda>acc v. case acc of None \<Rightarrow> Some v | Some a \<Rightarrow> Some (max a v)) None xs"

text \<open>
  \<^verbatim>\<open>
  function softmax(logits: Float32Array): number[] {
    const max = Math.max(...Array.from(logits));
    const exps = Array.from(logits, (v) => Math.exp(v - max));
    const sum = exps.reduce((a, b) => a + b, 0);
    return exps.map((e) => e / (sum || 1));
  }
  \<close>
  The maximum is \<^verbatim>\<open>-Infinity\<close> only for the empty vector, where both maps run over no
  element and the result is empty. \<open>softmax_sum\<close> is the value of \<^verbatim>\<open>sum\<close> and
  \<open>softmax_divisor\<close> the value of \<^verbatim>\<open>sum || 1\<close>.
\<close>

definition softmax_exps :: "real list \<Rightarrow> real list" where
  "softmax_exps logits =
     (case math_max logits of
        None \<Rightarrow> []
      | Some mx \<Rightarrow> map (\<lambda>v. exp (v - mx)) logits)"

definition softmax_sum :: "real list \<Rightarrow> real" where
  "softmax_sum logits = foldl (\<lambda>a b. a + b) 0 (softmax_exps logits)"

definition softmax_divisor :: "real list \<Rightarrow> real" where
  "softmax_divisor logits =
     (if softmax_sum logits = 0 then 1 else softmax_sum logits)"

definition softmax :: "real list \<Rightarrow> real list" where
  "softmax logits = map (\<lambda>e. e / softmax_divisor logits) (softmax_exps logits)"

subsection \<open>Evaluation run (\<^verbatim>\<open>EvalPage.tsx\<close>)\<close>

text \<open>
  \<^verbatim>\<open>
  function argmax(logits: Float32Array) {
    let bestIdx = 0;
    let best = logits[0] ?? -Infinity;
    for (let i = 1; i < logits.length; i++) {
      const v = logits[i]!;
      if (v > best) { best = v; bestIdx = i; }
    }
    return bestIdx;
  }
  \<close>
  The loop runs only when \<^verbatim>\<open>logits[0]\<close> exists, so \<open>best\<close> is a number in every
  comparison.
\<close>

definition argmax :: "real list \<Rightarrow> nat" where
  "argmax logits =
     (case logits of
        [] \<Rightarrow> 0
      | l0 # _ \<Rightarrow>
          fst (fold (\<lambda>i (bestIdx, best).
                       let v = logits ! i in
                       if v > best then (i, v) else (bestIdx, best))
                 [1..<length logits] (0, l0)))"

text \<open>
  An array store \<^verbatim>\<open>xs[i] = v\<close> on a plain JavaScript array: beyond the end the array
  grows. The cells in between are holes; the source reads a cell as
  \<^verbatim>\<open>xs[i] ?? 0\<close>, under which a hole counts as 0, and so they are 0 here.
\<close>

definition js_store :: "nat list \<Rightarrow> nat \<Rightarrow> nat \<Rightarrow> nat list" where
  "js_store xs i v =
     (if i < length xs then xs[i := v] else xs @ replicate (i - length xs) 0 @ [v])"

definition js_read0 :: "nat list \<Rightarrow> nat \<Rightarrow> nat" where
  "js_read0 xs i = (if i < length xs then xs ! i else 0)"

definition zeroConf :: "nat list list" where
  "zeroConf = replicate 10 (replicate 10 0)"

text \<open>
  One accumulation, lines 118 and 119 of the source:
  \<^verbatim>\<open>
  localConf[y]![pred] = (localConf[y]![pred] ?? 0) + 1;
  if (pred === y) localCorrect++;
  \<close>
  \<open>y\<close> is the label of the sample, any integer the dataset holds. A label that is not a
  row index makes \<^verbatim>\<open>localConf[y]\<close> undefined, and the access to its cell throws.
\<close>

definition accumulate :: "int \<Rightarrow> nat \<Rightarrow> nat \<times> nat list list \<Rightarrow> fault + (nat \<times> nat list list)" where
  "accumulate y pred st =
     (case st of (localCorrect, localConf) \<Rightarrow>
        if y < 0 \<or> int (length localConf) \<le> y then Inl TypeError
        else
          let row = localConf ! nat y;
              localConf' = localConf[nat y := js_store row pred (js_read0 row pred + 1)];
              localCorrect' = (if int pred = y then localCorrect + 1 else localCorrect)
          in Inr (localCorrect', localConf'))"

record sample =
  label :: int
  pixels :: "nat list"    \<comment> \<open>the decoded bytes of \<^verbatim>\<open>pixelsB64\<close>\<close>

text \<open>The state of the page that the run sets.\<close>

record ui =
  running :: bool
  doneN :: nat                  \<comment> \<open>\<^verbatim>\<open>done\<close> in the source\<close>
  total :: nat
  correct :: nat
  conf :: "nat list list"

text \<open>
  The input tensor of one sample: \<^verbatim>\<open>x[j] = (pixels[j]! / 255 - 0.1307) / 0.3081\<close> for
  \<open>j < 784\<close>. A sample with fewer bytes gives NaN entries, \<open>None\<close> here.
\<close>

definition inputTensor :: "nat list \<Rightarrow> real option list" where
  "inputTensor px =
     map (\<lambda>j. if j < length px then Some ((real (px ! j) / 255 - 0.1307) / 0.3081) else None)
       [0..<28 * 28]"

text \<open>
  The body of the loop of \<^verbatim>\<open>runEval\<close> for sample \<open>i\<close>. The inference engine is the
  parameter \<open>infer\<close>: from the input tensor to the logits, or a failure.
  \<^verbatim>\<open>
  if ((i + 1) % 10 === 0 || i + 1 === dataset.samples.length) {
    setConf(localConf.map((row) => row.slice()));
    setCorrect(localCorrect);
    setDone(i + 1);
  }
  \<close>
\<close>

definition evalStep ::
  "(real option list \<Rightarrow> fault + real list) \<Rightarrow> sample list \<Rightarrow> nat \<Rightarrow>
   (nat \<times> nat list list) \<times> ui \<Rightarrow> fault + ((nat \<times> nat list list) \<times> ui)" where
  "evalStep infer samples i st =
     (case st of (loc, u) \<Rightarrow>
        let s = samples ! i in
        (case infer (inputTensor (pixels s)) of
           Inl e \<Rightarrow> Inl e
         | Inr logits \<Rightarrow>
             (case accumulate (label s) (argmax logits) loc of
                Inl e \<Rightarrow> Inl e
              | Inr (localCorrect, localConf) \<Rightarrow>
                  Inr ((localCorrect, localConf),
                       if (i + 1) mod 10 = 0 \<or> i + 1 = length samples
                       then u\<lparr>conf := localConf, correct := localCorrect, doneN := i + 1\<rparr>
                       else u))))"

text \<open>
  The run after its first \<open>k\<close> samples: the local counters and the state of the page.
  With a session and a dataset (without them it returns at once) \<^verbatim>\<open>runEval\<close> starts
  with \<^verbatim>\<open>setRunning(true); setDone(0); setCorrect(0); setConf(zero)\<close>; \<open>total\<close> was set
  to the number of samples when the dataset was loaded.
\<close>

definition runEvalUpTo ::
  "(real option list \<Rightarrow> fault + real list) \<Rightarrow> sample list \<Rightarrow> nat \<Rightarrow> ui \<Rightarrow>
   fault + ((nat \<times> nat list list) \<times> ui)" where
  "runEvalUpTo infer samples k u =
     iterate (evalStep infer samples) [0..<k]
       ((0, zeroConf), u\<lparr>running := True, doneN := 0, correct := 0, conf := zeroConf\<rparr>)"

definition runEval ::
  "(real option list \<Rightarrow> fault + real list) \<Rightarrow> sample list \<Rightarrow> ui \<Rightarrow> fault + ui" where
  "runEval infer samples u =
     (case runEvalUpTo infer samples (length samples) u of
        Inl e \<Rightarrow> Inl e
      | Inr (loc, u') \<Rightarrow> Inr (u'\<lparr>running := False\<rparr>))"

text \<open>\<^verbatim>\<open>const accuracy = total ? (correct / total) * 100 : 0;\<close>\<close>

definition accuracy :: "ui \<Rightarrow> real" where
  "accuracy u = (if total u \<noteq> 0 then (real (correct u) / real (total u)) * 100 else 0)"

text \<open>The sums the invariant of the confusion matrix speaks of.\<close>

definition cellSum :: "nat list list \<Rightarrow> nat" where
  "cellSum m = sum_list (map sum_list m)"

definition diagSum :: "nat list list \<Rightarrow> nat" where
  "diagSum m = (\<Sum>i<length m. js_read0 (m ! i) i)"

text \<open>
  The number of the first \<open>k\<close> samples whose predicted class is their label, when
  \<open>logits i\<close> is what the engine returns for sample \<open>i\<close>.
\<close>

definition hits :: "(nat \<Rightarrow> real list) \<Rightarrow> sample list \<Rightarrow> nat \<Rightarrow> nat" where
  "hits logits samples k =
     length (filter (\<lambda>i. int (argmax (logits i)) = label (samples ! i)) [0..<k])"

text \<open>
  The page is set after every tenth sample and after the last of the \<open>n\<close> samples:
  after \<open>k\<close> samples, the number of samples that the page has counted.
\<close>

definition lastUpdate :: "nat \<Rightarrow> nat \<Rightarrow> nat" where
  "lastUpdate n k = (if k = n then k else k - k mod 10)"

text \<open>
  The reading of the running accuracy as the diagonal sum over the number of samples
  processed so far: it holds after \<open>k\<close> samples when the run got that far and the page
  shows that quotient.
\<close>

definition reportsRunningAccuracy ::
  "(real option list \<Rightarrow> fault + real list) \<Rightarrow> sample list \<Rightarrow> ui \<Rightarrow> nat \<Rightarrow> bool" where
  "reportsRunningAccuracy infer samples u k =
     (case runEvalUpTo infer samples k u of
        Inl e \<Rightarrow> False
      | Inr ((c, m), u') \<Rightarrow> accuracy u' = real (diagSum m) / real k)"

text \<open>
  For the examples: an engine that always answers with the same two logits (class 0
  wins), and the page before a run over a dataset of \<open>n\<close> samples.
\<close>

definition constEngine :: "real option list \<Rightarrow> fault + real list" where
  "constEngine x = Inr [1, 0]"

definition idleUi :: "nat \<Rightarrow> ui" where
  "idleUi n = \<lparr>running = False, doneN = 0, total = n, correct = 0, conf = zeroConf\<rparr>"

section \<open>Double-precision products and quotients\<close>

text \<open>
  Where the source rounds a product or a quotient to an integer (a length, a size, an
  index), the rounding of the double-precision operation decides the result: the
  product \<^verbatim>\<open>45 * (7 / 10)\<close> is the double below 31.5 and \<^verbatim>\<open>Math.round\<close> takes it
  to 31, not to 32. There the two operations are taken as the parameter \<open>d\<close>:
  \<open>dmul d x y\<close> and \<open>ddiv d x y\<close> are the doubles that the engine computes for
  \<^verbatim>\<open>x * y\<close> and \<^verbatim>\<open>x / y\<close>.
\<close>

record doubles =
  dmul :: "real \<Rightarrow> real \<Rightarrow> real"
  ddiv :: "real \<Rightarrow> real \<Rightarrow> real"

text \<open>
  The unit roundoff of double precision: away from overflow and underflow the computed
  product or quotient differs from the exact one by at most this fraction of it.
\<close>

definition unitRoundoff :: real where
  "unitRoundoff = 1 / 2 ^ 53"

text \<open>Operations without rounding error, for the examples whose results are exact doubles.\<close>

definition exactDoubles :: doubles where
  "exactDoubles = \<lparr>dmul = (\<lambda>x y. x * y), ddiv = (\<lambda>x y. x / y)\<rparr>"

section \<open>Audio conditioning (\<^verbatim>\<open>src/lib/audio.ts\<close>)\<close>

text \<open>\<^verbatim>\<open>Math.round\<close>: the nearest integer, a tie going up.\<close>

definition math_round :: "real \<Rightarrow> int" where
  "math_round x = \<lfloor>x + 1 / 2\<rfloor>"

text \<open>A read \<^verbatim>\<open>xs[i]\<close> of a typed array: \<^verbatim>\<open>undefined\<close> (here \<open>None\<close>) outside of it.\<close>

definition array_read :: "real list \<Rightarrow> int \<Rightarrow> real option" where
  "array_read xs i = (if 0 \<le> i \<and> i < int (length xs) then Some (xs ! nat i) else None)"

text \<open>
  \<^verbatim>\<open>
  export function resampleLinear(input: Float32Array, inputRate: number, outputRate: number) {
    if (inputRate === outputRate) return input;
    const ratio = outputRate / inputRate;
    const outputLength = Math.max(1, Math.round(input.length * ratio));
    const output = new Float32Array(outputLength);
    for (let i = 0; i < outputLength; i++) {
      const pos = i / ratio;
      const idx = Math.floor(pos);
      const frac = pos - idx;
      const a = input[idx] ?? 0;
      const b = input[idx + 1] ?? a;
      output[i] = a + (b - a) * frac;
    }
    return output;
  }
  \<close>
  The sample rates are positive numbers; a rate of 0 (a division by zero in the source) is
  outside the model. The quotients \<^verbatim>\<open>outputRate / inputRate\<close> and \<^verbatim>\<open>i / ratio\<close> and the
  product \<^verbatim>\<open>input.length * ratio\<close> are the doubles of \<open>d\<close>; \<^verbatim>\<open>Math.round\<close> and
  \<^verbatim>\<open>Math.floor\<close> of a double and \<^verbatim>\<open>pos - idx\<close> are exact.
\<close>

definition resampleLinear :: "doubles \<Rightarrow> real list \<Rightarrow> real \<Rightarrow> real \<Rightarrow> real list" where
  "resampleLinear d input inputRate outputRate =
     (if inputRate = outputRate then input
      else
        let ratio = ddiv d outputRate inputRate;
            outputLength = max 1 (math_round (dmul d (real (length input)) ratio))
        in map (\<lambda>i.
                  let pos = ddiv d (real i) ratio;
                      idx = \<lfloor>pos\<rfloor>;
                      frac = pos - of_int idx;
                      a = (case array_read input idx of None \<Rightarrow> 0 | Some v \<Rightarrow> v);
                      b = (case array_read input (idx + 1) of None \<Rightarrow> a | Some v \<Rightarrow> v)
                  in a + (b - a) * frac)
             [0..<nat outputLength])"

text \<open>
  The length that the specification gives for the output:
  \<open>round(inputLength \<cdot> targetRate / sourceRate)\<close>, with a minimum of 1 sample.
\<close>

definition resampledLength :: "nat \<Rightarrow> real \<Rightarrow> real \<Rightarrow> nat" where
  "resampledLength n inputRate outputRate =
     nat (max 1 (math_round (real n * (outputRate / inputRate))))"

text \<open>
  The number \<open>x\<close> is away from the ties by more than \<open>e\<close>: no number within \<open>e\<close> of
  \<open>x\<close> is rounded to another integer than \<open>x\<close> is.
\<close>

definition awayFromTies :: "real \<Rightarrow> real \<Rightarrow> bool" where
  "awayFromTies x e \<longleftrightarrow> \<lfloor>x + 1 / 2 - e\<rfloor> = \<lfloor>x + 1 / 2 + e\<rfloor>"

text \<open>
  For the example at a tie: the doubles that the engine computes for \<^verbatim>\<open>7 / 10\<close> and for
  the product of 45 and that quotient (\<^verbatim>\<open>0.7\<close> and \<^verbatim>\<open>31.499999999999996\<close> as
  fractions); at other arguments the example does not round.
\<close>

definition tieDoubles :: doubles where
  "tieDoubles =
     \<lparr>dmul = (\<lambda>x y. if x = 45 \<and> y = 6305039478318694 / 2 ^ 53
                       then 8866461766385663 / 2 ^ 48 else x * y),
      ddiv = (\<lambda>x y. if x = 7 \<and> y = 10 then 6305039478318694 / 2 ^ 53 else x / y)\<rparr>"

section \<open>Image conditioning (\<^verbatim>\<open>src/lib/preprocessMnist.ts\<close>)\<close>

text \<open>
  A canvas: its size, the bytes that \<^verbatim>\<open>getImageData(0, 0, width, height).data\<close> returns
  (four per pixel, row by row, the red channel first), and whether
  \<^verbatim>\<open>getContext('2d')\<close> returns a context.
\<close>

record canvas =
  width :: nat
  height :: nat
  data :: "nat list"
  hasContext :: bool

text \<open>
  What the function takes from the browser besides the source canvas: whether each of
  the canvases it creates gives a 2D context, and the pixels of the 28 by 28 preview
  after the crop was scaled and drawn onto it (from the source canvas, the crop
  rectangle, the scaled size and the offsets).
\<close>

record browser =
  previewContext :: bool
  cropContext :: bool
  scaledContext :: bool
  composed :: "canvas \<Rightarrow> int \<times> int \<times> int \<times> int \<Rightarrow> int \<times> int \<Rightarrow> int \<times> int \<Rightarrow> nat list"

record preprocessResult =
  tensorData :: "real list"
  previewData :: "nat list"   \<comment> \<open>the pixels of \<^verbatim>\<open>previewCanvas\<close>\<close>
  hasInk :: bool

definition MNIST_MEAN :: real where "MNIST_MEAN = 0.1307"
definition MNIST_STD :: real where "MNIST_STD = 0.3081"

definition clamp :: "int \<Rightarrow> int \<Rightarrow> int \<Rightarrow> int" where
  "clamp v mn mx = max mn (min mx v)"

text \<open>
  The ink test of the pixel at column \<open>x\<close> of row \<open>y\<close>:
  \<^verbatim>\<open>
  const i = (row + x) * 4;  const r = data[i] / 255;  const ink = 1 - r;
  if (ink > threshold) ...
  \<close>
  with \<^verbatim>\<open>threshold = 0.12\<close>. A byte that is not there makes the comparison false.
\<close>

definition inkValue :: "canvas \<Rightarrow> nat \<Rightarrow> nat \<Rightarrow> real option" where
  "inkValue c x y =
     (let i = (y * width c + x) * 4
      in if i < length (data c) then Some (1 - real (data c ! i) / 255) else None)"

definition isInk :: "canvas \<Rightarrow> nat \<Rightarrow> nat \<Rightarrow> bool" where
  "isInk c x y = (case inkValue c x y of None \<Rightarrow> False | Some ink \<Rightarrow> ink > 0.12)"

definition scanPixel :: "canvas \<Rightarrow> nat \<Rightarrow> nat \<Rightarrow> int \<times> int \<times> int \<times> int \<Rightarrow> int \<times> int \<times> int \<times> int" where
  "scanPixel c y x box =
     (case box of (minX, minY, maxX, maxY) \<Rightarrow>
        if isInk c x y
        then (if int x < minX then int x else minX,
              if int y < minY then int y else minY,
              if int x > maxX then int x else maxX,
              if int y > maxY then int y else maxY)
        else box)"

text \<open>The two loops over the rows and the columns, from \<open>(width, height, -1, -1)\<close>.\<close>

definition boundingBox :: "canvas \<Rightarrow> int \<times> int \<times> int \<times> int" where
  "boundingBox c =
     fold (\<lambda>y box. fold (scanPixel c y) [0..<width c] box) [0..<height c]
       (int (width c), int (height c), -1, -1)"

text \<open>
  The tensor of the composed preview, one entry per pixel from its red channel:
  \<^verbatim>\<open>
  const tensorData = new Float32Array(28 * 28);
  for (let i = 0; i < finalData.length; i += 4) {
    const r = finalData[i] / 255;
    const ink = 1 - r;
    tensorData[i / 4] = (ink - MNIST_MEAN) / MNIST_STD;
  }
  \<close>
  The image data of the 28 by 28 preview has \<open>4 \<cdot> 784\<close> bytes; an entry whose byte is
  not there is never written and stays 0.
\<close>

definition normalizePreview :: "nat list \<Rightarrow> real list" where
  "normalizePreview finalData =
     map (\<lambda>p. if 4 * p < length finalData
              then ((1 - real (finalData ! (4 * p)) / 255) - MNIST_MEAN) / MNIST_STD
              else 0)
       [0..<28 * 28]"

text \<open>The preview of a blank canvas: 28 by 28 opaque black pixels.\<close>

definition blackPreview :: "nat list" where
  "blackPreview = concat (replicate (28 * 28) [0, 0, 0, 255])"

text \<open>
  \<^verbatim>\<open>preprocessMnistFromCanvas\<close>, in the order of the source: the source context, the
  pixels (\<^verbatim>\<open>getImageData\<close> raises IndexSizeError for a width or height of 0), the
  bounding box of the ink, the preview context, the early return for a blank canvas,
  and then the crop, the scaling and the composition. The margin and the scaled size
  are rounded from the doubles \<^verbatim>\<open>boxSize * 0.2\<close>, \<^verbatim>\<open>targetInkSize / Math.max(cropW, cropH)\<close>,
  \<^verbatim>\<open>cropW * scale\<close> and \<^verbatim>\<open>cropH * scale\<close> of \<open>d\<close>.
\<close>

definition preprocessMnistFromCanvas ::
  "doubles \<Rightarrow> browser \<Rightarrow> canvas \<Rightarrow> fault + preprocessResult" where
  "preprocessMnistFromCanvas d b sourceCanvas =
     (if \<not> hasContext sourceCanvas then Inl CouldNotReadCanvas
      else if width sourceCanvas = 0 \<or> height sourceCanvas = 0 then Inl IndexSizeError
      else
        case boundingBox sourceCanvas of (minX, minY, maxX, maxY) \<Rightarrow>
          if \<not> previewContext b then Inl CouldNotCreatePreview
          else if maxX < 0 \<or> maxY < 0
          then Inr \<lparr>tensorData = replicate (28 * 28) 0, previewData = blackPreview,
                    hasInk = False\<rparr>
          else
            let w = int (width sourceCanvas); h = int (height sourceCanvas);
                boxW = maxX - minX + 1;
                boxH = maxY - minY + 1;
                boxSize = max boxW boxH;
                margin = math_round (dmul d (of_int boxSize) 0.2);
                cropX = clamp (minX - margin) 0 (w - 1);
                cropY = clamp (minY - margin) 0 (h - 1);
                cropMaxX = clamp (maxX + margin) 0 (w - 1);
                cropMaxY = clamp (maxY + margin) 0 (h - 1);
                cropW = cropMaxX - cropX + 1;
                cropH = cropMaxY - cropY + 1
            in
              if \<not> cropContext b then Inl CouldNotCreateCrop
              else
                let scale = ddiv d 20 (of_int (max cropW cropH));
                    scaledW = max 1 (math_round (dmul d (of_int cropW) scale));
                    scaledH = max 1 (math_round (dmul d (of_int cropH) scale))
                in
                  if \<not> scaledContext b then Inl CouldNotCreateScaled
                  else
                    let offsetX = \<lfloor>(28 - real_of_int scaledW) / 2\<rfloor>;
                        offsetY = \<lfloor>(28 - real_of_int scaledH) / 2\<rfloor>;
                        finalData = composed b sourceCanvas (cropX, cropY, cropW, cropH)
                                      (scaledW, scaledH) (offsetX, offsetY)
                    in Inr \<lparr>tensorData = normalizePreview finalData, previewData = finalData,
                             hasInk = True\<rparr>)"

text \<open>For the examples: a browser that gives every context but the one of the preview.\<close>

definition noPreviewBrowser :: browser where
  "noPreviewBrowser =
     \<lparr>previewContext = False, cropContext = True, scaledContext = True,
      composed = (\<lambda>c crop scaled offset. blackPreview)\<rparr>"

definition plainBrowser :: browser where
  "plainBrowser =
     \<lparr>previewContext = True, cropContext = True, scaledContext = True,
      composed = (\<lambda>c crop scaled offset. blackPreview)\<rparr>"

text \<open>A canvas of one white pixel.\<close>

definition whitePixel :: canvas where
  "whitePixel = \<lparr>width = 1, height = 1, data = [255, 255, 255, 255], hasContext = True\<rparr>"

section \<open>Spectral engine (\<^verbatim>\<open>src/lib/melSpectrogram.ts\<close>)\<close>

definition SAMPLE_RATE :: nat where "SAMPLE_RATE = 16000"
definition N_FFT :: nat where "N_FFT = 1024"
definition HOP_LENGTH :: nat where "HOP_LENGTH = 512"
definition N_MELS :: nat where "N_MELS = 128"
definition N_FRAMES :: nat where "N_FRAMES = 32"

text \<open>\<^verbatim>\<open>2595 * Math.log10(1 + hz / 700)\<close> and \<^verbatim>\<open>700 * (10 ** (mel / 2595) - 1)\<close>.\<close>

definition hzToMel :: "real \<Rightarrow> real" where
  "hzToMel hz = 2595 * log 10 (1 + hz / 700)"

definition melToHz :: "real \<Rightarrow> real" where
  "melToHz mel = 700 * (10 powr (mel / 2595) - 1)"

text \<open>\<^verbatim>\<open>w[i] = 0.5 - 0.5 * Math.cos((2 * Math.PI * i) / (n - 1))\<close> for \<open>i < n\<close>.\<close>

definition hannWindow :: "nat \<Rightarrow> real list" where
  "hannWindow n = map (\<lambda>i. 0.5 - 0.5 * cos ((2 * pi * real i) / (real n - 1))) [0..<n]"

subsection \<open>Bit reversal\<close>

text \<open>
  The integers of the bit operations and shifts of the source are 32-bit. On the array
  lengths and indices below \<open>2^31\<close> the operations \<^verbatim>\<open>&\<close>, \<^verbatim>\<open>^\<close> and \<^verbatim>\<open>>> 1\<close> are those of
  the natural numbers; \<^verbatim>\<open><< 1\<close> doubles below \<open>2^30\<close> and is written out where it
  occurs. Arrays of \<open>2^31\<close> entries and more are outside the model.

  The inner loop of \<^verbatim>\<open>bitReversePermutation\<close>, which returns \<open>j\<close> and \<open>bit\<close> (here \<open>bt\<close>):
  \<^verbatim>\<open>
  while (j & bit) { j ^= bit; bit >>= 1; }
  \<close>
\<close>

function bitReverseCarry :: "nat \<Rightarrow> nat \<Rightarrow> nat \<times> nat" where
  "bitReverseCarry j bt =
     (if and j bt \<noteq> 0 then bitReverseCarry (xor j bt) (drop_bit 1 bt) else (j, bt))"
  by pat_completeness auto
termination
proof (relation "measure (\<lambda>(j, bt). bt)")
  show "wf (measure (\<lambda>(j, bt). bt))" by simp
next
  fix j bt :: nat
  assume "and j bt \<noteq> 0"
  then have "bt \<noteq> 0" by (rule contrapos_nn) simp
  then show "((xor j bt, drop_bit 1 bt), (j, bt)) \<in> measure (\<lambda>(j, bt). bt)"
    by (simp add: drop_bit_eq_div)
qed

declare bitReverseCarry.simps [simp del]

text \<open>
  The exchange of the cells \<open>i < j\<close> of one typed array:
  \<^verbatim>\<open>const t = a[i]; a[i] = a[j]; a[j] = t;\<close>. A store outside of the array does nothing;
  a read outside of it stores NaN in a cell \<open>i\<close> that is inside.
\<close>

definition swapCells :: "real list \<Rightarrow> nat \<Rightarrow> nat \<Rightarrow> fault + real list" where
  "swapCells a i j =
     (if j < length a then Inr (a[i := a ! j, j := a ! i])
      else if i < length a then Inl NotANumber
      else Inr a)"

text \<open>
  The body of the loop over \<open>i\<close>, on the state \<open>(j, re, im)\<close>:
  \<^verbatim>\<open>
  let bit = n >> 1;
  while (j & bit) { j ^= bit; bit >>= 1; }
  j ^= bit;
  if (i < j) { swap re[i], re[j]; swap im[i], im[j]; }
  \<close>
\<close>

definition bitReverseStep ::
  "nat \<Rightarrow> nat \<Rightarrow> nat \<times> real list \<times> real list \<Rightarrow> fault + (nat \<times> real list \<times> real list)" where
  "bitReverseStep n i st =
     (case st of (j, re, im) \<Rightarrow>
        (case bitReverseCarry j (drop_bit 1 n) of (j1, bt) \<Rightarrow>
           let j2 = xor j1 bt in
           if i < j2
           then (case swapCells re i j2 of
                   Inl e \<Rightarrow> Inl e
                 | Inr re' \<Rightarrow>
                     (case swapCells im i j2 of
                        Inl e \<Rightarrow> Inl e
                      | Inr im' \<Rightarrow> Inr (j2, re', im')))
           else Inr (j2, re, im)))"

definition bitReversePermutation :: "real list \<Rightarrow> real list \<Rightarrow> fault + (real list \<times> real list)" where
  "bitReversePermutation re im =
     (let n = length re in
      case iterate (bitReverseStep n) [1..<n] (0, re, im) of
        Inl e \<Rightarrow> Inl e
      | Inr (j, re', im') \<Rightarrow> Inr (re', im'))"

subsection \<open>Fast Fourier transform\<close>

text \<open>
  The body of the innermost loop, on the state \<open>(re, im, wRe, wIm)\<close>; \<open>wLenRe\<close> and
  \<open>wLenIm\<close> are the cosine and the sine of \<^verbatim>\<open>ang = (-2 * Math.PI) / len\<close>.
  \<^verbatim>\<open>
  const uRe = re[i + j];
  const uIm = im[i + j];
  const vRe = re[i + j + len / 2] * wRe - im[i + j + len / 2] * wIm;
  const vIm = re[i + j + len / 2] * wIm + im[i + j + len / 2] * wRe;
  re[i + j] = uRe + vRe;
  im[i + j] = uIm + vIm;
  re[i + j + len / 2] = uRe - vRe;
  im[i + j + len / 2] = uIm - vIm;
  const nextWRe = wRe * wLenRe - wIm * wLenIm;
  wIm = wRe * wLenIm + wIm * wLenRe;
  wRe = nextWRe;
  \<close>
  \<open>len\<close> is even, so \<^verbatim>\<open>len / 2\<close> is \<open>len div 2\<close>. A cell that is not in both arrays
  reads as \<^verbatim>\<open>undefined\<close> and gives NaN.
\<close>

definition butterfly ::
  "nat \<Rightarrow> nat \<Rightarrow> nat \<Rightarrow> real list \<times> real list \<times> real \<times> real \<Rightarrow>
   fault + (real list \<times> real list \<times> real \<times> real)" where
  "butterfly len i j st =
     (case st of (re, im, wRe, wIm) \<Rightarrow>
        let ang = (- 2 * pi) / real len;
            wLenRe = cos ang;
            wLenIm = sin ang;
            p = i + j;
            q = i + j + len div 2
        in
          if q < length re \<and> q < length im
          then
            let uRe = re ! p;
                uIm = im ! p;
                vRe = re ! q * wRe - im ! q * wIm;
                vIm = re ! q * wIm + im ! q * wRe;
                re1 = re[p := uRe + vRe];
                im1 = im[p := uIm + vIm];
                re2 = re1[q := uRe - vRe];
                im2 = im1[q := uIm - vIm];
                nextWRe = wRe * wLenRe - wIm * wLenIm;
                wIm' = wRe * wLenIm + wIm * wLenRe
            in Inr (re2, im2, nextWRe, wIm')
          else Inl NotANumber)"

text \<open>
  The loop over \<open>j\<close> for the block that starts at \<open>i\<close>:
  \<^verbatim>\<open>let wRe = 1; let wIm = 0; for (let j = 0; j < len / 2; j++) { ... }\<close>
\<close>

definition fft_block ::
  "nat \<Rightarrow> nat \<Rightarrow> real list \<times> real list \<Rightarrow> fault + (real list \<times> real list)" where
  "fft_block len i st =
     (case st of (re, im) \<Rightarrow>
        (case iterate (butterfly len i) [0..<len div 2] (re, im, 1, 0) of
           Inl e \<Rightarrow> Inl e
         | Inr (re', im', wRe, wIm) \<Rightarrow> Inr (re', im')))"

text \<open>
  The loop over the blocks, \<^verbatim>\<open>for (let i = 0; i < n; i += len) { ... }\<close>, from \<open>i\<close> on.
  With \<open>len = 0\<close> the counter would stay below \<open>n\<close>.
\<close>

function fft_blocks ::
  "nat \<Rightarrow> nat \<Rightarrow> nat \<Rightarrow> real list \<times> real list \<Rightarrow> fault + (real list \<times> real list)" where
  "fft_blocks n len i st =
     (if i < n
      then (if len = 0 then Inl DoesNotEnd
            else (case fft_block len i st of
                    Inl e \<Rightarrow> Inl e
                  | Inr st' \<Rightarrow> fft_blocks n len (i + len) st'))
      else Inr st)"
  by pat_completeness auto
termination
  by (relation "measure (\<lambda>(n, len, i, st). n - i)") auto

declare fft_blocks.simps [simp del]

text \<open>
  The loop over the stages, \<^verbatim>\<open>for (let len = 2; len <= n; len <<= 1) { ... }\<close>, from
  \<open>len\<close> on. The shift is a 32-bit one: it doubles \<open>len\<close> below \<open>2^30\<close>, and from \<open>2^30\<close>
  it gives \<open>-2^31\<close>. That value is at most \<open>n\<close> again, and as the step of the loop over
  the blocks it moves the counter \<open>i\<close> down from 0 and never to \<open>n\<close>: the function does
  not return.
\<close>

function fft_stages ::
  "nat \<Rightarrow> nat \<Rightarrow> real list \<times> real list \<Rightarrow> fault + (real list \<times> real list)" where
  "fft_stages n len st =
     (if len \<le> n
      then (case fft_blocks n len 0 st of
              Inl e \<Rightarrow> Inl e
            | Inr st' \<Rightarrow>
                if len = 0 \<or> 2 ^ 30 \<le> len then Inl DoesNotEnd
                else fft_stages n (2 * len) st')
      else Inr st)"
  by pat_completeness auto
termination
  by (relation "measure (\<lambda>(n, len, st). Suc n - len)") auto

declare fft_stages.simps [simp del]

text \<open>
  \<^verbatim>\<open>
  function fftInPlace(re: Float32Array, im: Float32Array) {
    const n = re.length;
    bitReversePermutation(re, im);
    for (let len = 2; len <= n; len <<= 1) { ... }
  }
  \<close>
  The arrays that the source overwrites are the result.
\<close>

definition fftInPlace :: "real list \<Rightarrow> real list \<Rightarrow> fault + (real list \<times> real list)" where
  "fftInPlace re im =
     (case bitReversePermutation re im of
        Inl e \<Rightarrow> Inl e
      | Inr st \<Rightarrow> fft_stages (length re) 2 st)"

text \<open>
  The discrete Fourier transform in the words of the specification: entry \<open>k\<close> of the
  transform of the complex sequence \<open>x\<close> of length \<open>N\<close> is the sum over \<open>n\<close> of
  \<open>x[n] \<cdot> exp(-2\<pi>i \<cdot> k \<cdot> n / N)\<close>, with no factor in front.
\<close>

definition dft :: "complex list \<Rightarrow> nat \<Rightarrow> complex" where
  "dft x k =
     (\<Sum>n<length x. x ! n * exp (- 2 * of_real pi * \<i> * of_nat k * of_nat n / of_nat (length x)))"

text \<open>The complex sequence of a pair of arrays of real and imaginary parts.\<close>

definition complexes :: "real list \<Rightarrow> real list \<Rightarrow> complex list" where
  "complexes re im = map (\<lambda>(r, i). Complex r i) (zip re im)"

subsection \<open>Mel filterbank\<close>

text \<open>
  The bin boundaries of \<^verbatim>\<open>getMelFilters\<close>: \<open>N_MELS + 2\<close> points, equally spaced on the
  mel scale from 0 Hz to \<open>SAMPLE_RATE / 2\<close>, as bins
  \<^verbatim>\<open>Math.floor((N_FFT + 1) * hz / SAMPLE_RATE)\<close>.
\<close>

definition melPoints :: "real list" where
  "melPoints =
     (let mMin = hzToMel 0; mMax = hzToMel (real SAMPLE_RATE / 2)
      in map (\<lambda>i. mMin + (real i * (mMax - mMin)) / real (N_MELS + 1)) [0..<N_MELS + 2])"

definition melBins :: "int list" where
  "melBins = map (\<lambda>hz. \<lfloor>real (N_FFT + 1) * hz / real SAMPLE_RATE\<rfloor>) (map melToHz melPoints)"

text \<open>\<^verbatim>\<open>bin[i] ?? 0\<close>\<close>

definition binOr0 :: "int list \<Rightarrow> nat \<Rightarrow> int" where
  "binOr0 bin i = (if i < length bin then bin ! i else 0)"

text \<open>\<^verbatim>\<open>if (k >= 0 && k < nFftBins) f[k] = v;\<close>\<close>

definition setBin :: "int \<Rightarrow> real \<Rightarrow> real list \<Rightarrow> real list" where
  "setBin k v f = (if 0 \<le> k \<and> k < int (N_FFT div 2 + 1) then f[nat k := v] else f)"

text \<open>
  One triangular filter, from its three bin boundaries:
  \<^verbatim>\<open>
  const f = new Float32Array(nFftBins);
  if (right <= left) { filters.push(f); continue; }
  for (let k = left; k < center; k++)
    if (k >= 0 && k < nFftBins) f[k] = (k - left) / Math.max(1, center - left);
  for (let k = center; k < right; k++)
    if (k >= 0 && k < nFftBins) f[k] = (right - k) / Math.max(1, right - center);
  \<close>
\<close>

definition melFilter :: "int \<Rightarrow> int \<Rightarrow> int \<Rightarrow> real list" where
  "melFilter left center right =
     (let f = replicate (N_FFT div 2 + 1) 0 in
      if right \<le> left then f
      else
        let f1 = fold (\<lambda>k. setBin k (of_int (k - left) / of_int (max 1 (center - left))))
                   [left..center - 1] f
        in fold (\<lambda>k. setBin k (of_int (right - k) / of_int (max 1 (right - center))))
             [center..right - 1] f1)"

definition getMelFilters :: "real list list" where
  "getMelFilters =
     map (\<lambda>m. melFilter (binOr0 melBins (m - 1)) (binOr0 melBins m) (binOr0 melBins (m + 1)))
       [1..<N_MELS + 1]"

subsection \<open>Mel spectrogram\<close>

text \<open>
  The windowed frame \<open>t\<close> of the padded signal:
  \<^verbatim>\<open>frame[i] = (padded[start + i] ?? 0) * window[i]!\<close> with \<^verbatim>\<open>start = t * HOP_LENGTH\<close>.
\<close>

definition melFrame :: "real list \<Rightarrow> nat \<Rightarrow> real list" where
  "melFrame padded t =
     (let start = t * HOP_LENGTH; window = hannWindow N_FFT
      in map (\<lambda>i. (case array_read padded (int (start + i)) of None \<Rightarrow> 0 | Some v \<Rightarrow> v)
                    * window ! i)
           [0..<N_FFT])"

text \<open>\<^verbatim>\<open>power[k] = r * r + ii * ii\<close> for the first \<open>N_FFT / 2 + 1\<close> bins.\<close>

definition powerSpectrum :: "real list \<times> real list \<Rightarrow> real list" where
  "powerSpectrum st =
     (case st of (re, im) \<Rightarrow>
        map (\<lambda>k. re ! k * re ! k + im ! k * im ! k) [0..<N_FFT div 2 + 1])"

text \<open>
  \<^verbatim>\<open>let sum = 0; for (let k = 0; k < nFftBins; k++) sum += power[k]! * filt[k]!;\<close>
  (the array \<^verbatim>\<open>power\<close> is \<open>pwr\<close> here).
\<close>

definition melEnergy :: "real list \<Rightarrow> real list \<Rightarrow> real" where
  "melEnergy pwr filt = fold (\<lambda>k sum. sum + pwr ! k * filt ! k) [0..<N_FFT div 2 + 1] 0"

text \<open>
  The power spectrum of frame \<open>t\<close>: the frame goes into \<open>re\<close>, \<open>im\<close> is filled with 0, and
  the transform runs on both.
\<close>

definition framePower :: "real list \<Rightarrow> nat \<Rightarrow> fault + real list" where
  "framePower padded t =
     (case fftInPlace (melFrame padded t) (replicate N_FFT 0) of
        Inl e \<Rightarrow> Inl e
      | Inr st \<Rightarrow> Inr (powerSpectrum st))"

text \<open>
  The body of the loop over the frames, on the output array:
  \<^verbatim>\<open>out[m * N_FRAMES + t] = sum\<close> for each mel band \<open>m\<close>.
\<close>

definition melFrameStep :: "real list \<Rightarrow> nat \<Rightarrow> real list \<Rightarrow> fault + real list" where
  "melFrameStep padded t out =
     (case framePower padded t of
        Inl e \<Rightarrow> Inl e
      | Inr pwr \<Rightarrow>
          Inr (fold (\<lambda>m out. out[m * N_FRAMES + t := melEnergy pwr (getMelFilters ! m)])
                 [0..<N_MELS] out))"

text \<open>
  \<^verbatim>\<open>
  const pad = N_FFT / 2;
  const padded = new Float32Array(samples16k.length + pad * 2);
  padded.set(samples16k, pad);
  const out = new Float32Array(N_MELS * N_FRAMES);
  for (let t = 0; t < N_FRAMES; t++) { ... }
  return out;
  \<close>
\<close>

definition paddedSamples :: "real list \<Rightarrow> real list" where
  "paddedSamples samples16k =
     replicate (N_FFT div 2) 0 @ samples16k @ replicate (N_FFT div 2) 0"

definition melSpectrogram128x32From16k :: "real list \<Rightarrow> fault + real list" where
  "melSpectrogram128x32From16k samples16k =
     iterate (melFrameStep (paddedSamples samples16k)) [0..<N_FRAMES]
       (replicate (N_MELS * N_FRAMES) 0)"

section \<open>Notions for the properties of the spectral engine\<close>

text \<open>
  The reversal of the lowest \<open>k\<close> bits of \<open>i\<close>: the lowest bit of \<open>i\<close> becomes bit
  \<open>k - 1\<close>, and the rest of \<open>i\<close> is reversed in \<open>k - 1\<close> bits below it.
\<close>

fun brev :: "nat \<Rightarrow> nat \<Rightarrow> nat" where
  "brev 0 i = 0"
| "brev (Suc k) i = (i mod 2) * 2 ^ k + brev k (i div 2)"

text \<open>
  The update of \<open>j\<close> in one round of \<^verbatim>\<open>bitReversePermutation\<close>, from \<open>bit = bt\<close>: the
  inner loop and the \<^verbatim>\<open>j ^= bit\<close> after it.
\<close>

definition revinc :: "nat \<Rightarrow> nat \<Rightarrow> nat" where
  "revinc bt j = (case bitReverseCarry j bt of (j1, b) \<Rightarrow> xor j1 b)"

text \<open>
  The cell \<open>p\<close> of the array \<open>a\<close> when the rounds \<open>i < I\<close> of the permutation are done:
  the cells \<open>p\<close> and \<open>brev k p\<close> are exchanged as soon as the smaller of the two is below
  \<open>I\<close>.
\<close>

definition partialRev :: "nat \<Rightarrow> nat \<Rightarrow> 'a list \<Rightarrow> nat \<Rightarrow> 'a" where
  "partialRev k I a p = (if p < I \<or> brev k p < I then a ! brev k p else a ! p)"

text \<open>The complex number in cell \<open>p\<close> of the two arrays.\<close>

definition cx :: "real list \<Rightarrow> real list \<Rightarrow> nat \<Rightarrow> complex" where
  "cx re im p = Complex (re ! p) (im ! p)"

text \<open>The twiddle factor of block length \<open>m\<close>, \<open>exp(-2\<pi>i / m)\<close>.\<close>

definition twiddle :: "nat \<Rightarrow> complex" where
  "twiddle m = cis (- 2 * pi / real m)"

text \<open>
  The cells after the first \<open>J\<close> butterflies of the block that starts at \<open>i\<close>, from the
  cells \<open>z\<close> before the block.
\<close>

definition blockVal :: "nat \<Rightarrow> nat \<Rightarrow> nat \<Rightarrow> (nat \<Rightarrow> complex) \<Rightarrow> nat \<Rightarrow> complex" where
  "blockVal len i J z p =
     (let h = len div 2 in
      if i \<le> p \<and> p < i + J then z p + twiddle len ^ (p - i) * z (p + h)
      else if i + h \<le> p \<and> p < i + h + J then z (p - h) - twiddle len ^ (p - h - i) * z p
      else z p)"

text \<open>The cells after the whole stage of block length \<open>len\<close>, from the cells \<open>z\<close> before it.\<close>

definition stageVal :: "nat \<Rightarrow> (nat \<Rightarrow> complex) \<Rightarrow> nat \<Rightarrow> complex" where
  "stageVal len z p =
     (let h = len div 2; r = p mod len in
      if r < h then z p + twiddle len ^ r * z (p + h)
      else z (p - h) - twiddle len ^ (r - h) * z p)"

text \<open>
  Entry \<open>j\<close> of the transform of length \<open>M\<close> of the subsequence of \<open>x\<close> that starts at
  \<open>r\<close> and takes every \<open>S\<close>-th element.
\<close>

definition subdft :: "(nat \<Rightarrow> complex) \<Rightarrow> nat \<Rightarrow> nat \<Rightarrow> nat \<Rightarrow> nat \<Rightarrow> complex" where
  "subdft x M r S j = (\<Sum>t<M. x (r + S * t) * twiddle M ^ (j * t))"

text \<open>
  The invariant of the loop over the stages, for the input \<open>x\<close> of length \<open>2 ^ k\<close>: when
  the stages up to block length \<open>2 ^ s\<close> are done, block \<open>b\<close> of the cells \<open>z\<close> holds the
  transform of the subsequence of \<open>x\<close> that starts at the reversal of \<open>b\<close>.
\<close>

definition stageInv :: "nat \<Rightarrow> nat \<Rightarrow> (nat \<Rightarrow> complex) \<Rightarrow> (nat \<Rightarrow> complex) \<Rightarrow> bool" where
  "stageInv k s x z \<longleftrightarrow>
     (\<forall>b < 2 ^ (k - s). \<forall>j < 2 ^ s.
        z (b * 2 ^ s + j) = subdft x (2 ^ s) (brev (k - s) b) (2 ^ (k - s)) j)"

text \<open>
  The value of mel band \<open>m\<close> and frame \<open>t\<close> of the spectrogram of the samples: the
  energy of the power spectrum of frame \<open>t\<close> under filter \<open>m\<close>.
\<close>

definition melValue :: "real list \<Rightarrow> nat \<Rightarrow> nat \<Rightarrow> real" where
  "melValue samples16k m t =
     (case framePower (paddedSamples samples16k) t of
        Inl e \<Rightarrow> 0
      | Inr pwr \<Rightarrow> melEnergy pwr (getMelFilters ! m))"

section \<open>Properties of the scoring utilities\<close>

lemma math_max_foldl_Some:
  "foldl (\<lambda>acc v. case acc of None \<Rightarrow> Some v | Some a \<Rightarrow> Some (max a v)) (Some a) xs
     = Some (Max (insert a (set xs)))"
proof (induction xs arbitrary: a)
  case Nil
  show ?case by simp
next
  case (Cons x xs)
  have "Max (insert (max a x) (set xs)) = Max (insert a (insert x (set xs)))"
    by (cases "set xs = {}") (simp_all add: max.assoc)
  with Cons show ?case by simp
qed

lemma math_max_Nil: "math_max [] = None"
  by (simp add: math_max_def)

lemma math_max_nonempty: "xs \<noteq> [] \<Longrightarrow> math_max xs = Some (Max (set xs))"
  by (cases xs) (simp_all add: math_max_def math_max_foldl_Some)

lemma foldl_add_sum_list: "foldl (\<lambda>a b. a + b) (s::real) xs = s + sum_list xs"
  by (induction xs arbitrary: s) simp_all

lemma softmax_sum_eq: "softmax_sum logits = sum_list (softmax_exps logits)"
  by (simp add: softmax_sum_def foldl_add_sum_list)

lemma softmax_exps_nonempty:
  "logits \<noteq> [] \<Longrightarrow> softmax_exps logits = map (\<lambda>v. exp (v - Max (set logits))) logits"
  by (simp add: softmax_exps_def math_max_nonempty)

lemma softmax_exps_nonneg: "e \<in> set (softmax_exps logits) \<Longrightarrow> 0 \<le> e"
  by (cases "logits = []") (auto simp: softmax_exps_nonempty softmax_exps_def math_max_Nil)

lemma member_le_sum_list_real:
  "\<forall>x\<in>set xs. (0::real) \<le> x \<Longrightarrow> e \<in> set xs \<Longrightarrow> e \<le> sum_list xs"
proof (induction xs)
  case Nil
  then show ?case by simp
next
  case (Cons x xs)
  have "0 \<le> sum_list xs" using Cons.prems(1) by (intro sum_list_nonneg) simp
  with Cons show ?case by auto
qed

lemma softmax_exps_le_sum:
  assumes "e \<in> set (softmax_exps logits)"
  shows "e \<le> softmax_sum logits"
  unfolding softmax_sum_eq
  using assms softmax_exps_nonneg member_le_sum_list_real by blast

lemma softmax_sum_ge_1:
  assumes "logits \<noteq> []"
  shows "1 \<le> softmax_sum logits"
proof -
  have "Max (set logits) \<in> set logits"
    using assms by (intro Max_in) auto
  then have "exp (Max (set logits) - Max (set logits)) \<in> set (softmax_exps logits)"
    using assms by (simp add: softmax_exps_nonempty image_iff)
  then have "(1::real) \<in> set (softmax_exps logits)" by simp
  then show ?thesis by (rule softmax_exps_le_sum)
qed

lemma softmax_divisor_nonempty: "logits \<noteq> [] \<Longrightarrow> softmax_divisor logits = softmax_sum logits"
  using softmax_sum_ge_1 [of logits] by (simp add: softmax_divisor_def)

lemma sum_list_softmax:
  assumes "logits \<noteq> []"
  shows "sum_list (softmax logits) = 1"
proof -
  let ?s = "softmax_sum logits"
  have pos: "?s \<noteq> 0" using softmax_sum_ge_1 [OF assms] by simp
  have "sum_list (softmax logits) = sum_list (map (\<lambda>e. e / ?s) (softmax_exps logits))"
    by (simp add: softmax_def softmax_divisor_nonempty [OF assms])
  also have "\<dots> = sum_list (softmax_exps logits) / ?s"
    by (simp add: divide_inverse sum_list_mult_const)
  also have "\<dots> = 1" using pos by (simp add: softmax_sum_eq)
  finally show ?thesis .
qed

lemma Max_shift:
  assumes "xs \<noteq> []"
  shows "Max (set (map (\<lambda>v. v + c) xs)) = Max (set xs) + (c::real)"
proof -
  have "Max ((\<lambda>v. v + c) ` set xs) = Max (set xs) + c"
    using assms by (intro mono_Max_commute [symmetric] monoI) auto
  then show ?thesis by simp
qed

lemma softmax_exps_shift:
  "softmax_exps (map (\<lambda>v. v + c) logits) = softmax_exps logits"
proof (cases "logits = []")
  case True
  then show ?thesis by simp
next
  case False
  then show ?thesis
    by (simp add: softmax_exps_nonempty Max_shift o_def del: set_map)
qed

lemma softmax_shift: "softmax (map (\<lambda>v. v + c) logits) = softmax logits"
  by (simp add: softmax_def softmax_divisor_def softmax_sum_def softmax_exps_shift)


text \<open>
  Claim C2. For every vector of ten logits, the entries of \<open>softmax\<close> add up to 1, and
  adding the same constant \<open>c\<close> to every logit gives the same output vector. (Over the
  reals the sum is exactly 1; the tolerance of the claim is for the rounding of the
  floating-point operations, which is not modelled.)
\<close>

theorem softmax_sums_to_one_and_shift_invariant:
  assumes "length logits = 10"
  shows "sum_list (softmax logits) = 1 \<and> softmax (map (\<lambda>v. v + c) logits) = softmax logits"
proof -
  from assms have "logits \<noteq> []" by auto
  then show ?thesis by (simp add: sum_list_softmax softmax_shift)
qed

text \<open>The theorem at the score vector of scenario A of the specification, shifted by 3.\<close>

theorem softmax_sums_to_one_and_shift_invariant_witness:
  "length [5, 1, 0, 0, 0, 0, 0, 0, 0, 0 :: real] = 10 \<and>
   sum_list (softmax [5, 1, 0, 0, 0, 0, 0, 0, 0, 0]) = 1 \<and>
   softmax (map (\<lambda>v. v + 3) [5, 1, 0, 0, 0, 0, 0, 0, 0, 0]) = softmax [5, 1, 0, 0, 0, 0, 0, 0, 0, 0]"
  using softmax_sums_to_one_and_shift_invariant [of "[5, 1, 0, 0, 0, 0, 0, 0, 0, 0]" 3]
  by simp



lemma iterate_append:
  "iterate body (xs @ ys) s =
     (case iterate body xs s of Inl e \<Rightarrow> Inl e | Inr s' \<Rightarrow> iterate body ys s')"
  by (induction xs arbitrary: s) (auto split: sum.splits)

lemma iterate_snoc:
  "iterate body (xs @ [x]) s =
     (case iterate body xs s of Inl e \<Rightarrow> Inl e | Inr s' \<Rightarrow> body x s')"
  by (simp add: iterate_append split: sum.splits)

lemma js_read0_js_store:
  "js_read0 (js_store xs i v) j = (if j = i then v else js_read0 xs j)"
  by (auto simp: js_read0_def js_store_def nth_append)

lemma sum_list_js_store:
  "sum_list (js_store xs i (js_read0 xs i + 1)) = sum_list xs + 1"
  by (auto simp: js_read0_def js_store_def sum_list_update)

lemma cellSum_update:
  assumes "y < length m"
  shows "cellSum (m[y := r]) + sum_list (m ! y) = cellSum m + sum_list r"
proof -
  have "sum_list (m ! y) \<in> set (map sum_list m)" using assms by simp
  then have "sum_list (m ! y) \<le> sum_list (map sum_list m)" by (simp add: member_le_sum_list)
  then show ?thesis using assms by (simp add: cellSum_def map_update sum_list_update)
qed

lemma diagSum_update:
  assumes "y < length m"
  shows "diagSum (m[y := r]) + js_read0 (m ! y) y = diagSum m + js_read0 r y"
proof -
  have fin: "finite {..<length m}" and mem: "y \<in> {..<length m}" using assms by auto
  have "diagSum (m[y := r]) = js_read0 r y + (\<Sum>i\<in>{..<length m} - {y}. js_read0 (m ! i) i)"
  proof -
    have "(\<Sum>i\<in>{..<length m} - {y}. js_read0 (m[y := r] ! i) i)
            = (\<Sum>i\<in>{..<length m} - {y}. js_read0 (m ! i) i)"
      by (rule sum.cong) simp_all
    then show ?thesis
      unfolding diagSum_def using assms by (simp add: sum.remove [OF fin mem])
  qed
  moreover have "diagSum m = js_read0 (m ! y) y + (\<Sum>i\<in>{..<length m} - {y}. js_read0 (m ! i) i)"
    unfolding diagSum_def by (simp add: sum.remove [OF fin mem])
  ultimately show ?thesis by simp
qed

lemma accumulate_ok:
  assumes "0 \<le> y" "y < int (length m)"
  shows "\<exists>m'. accumulate y pred (c, m) = Inr (c + (if int pred = y then 1 else 0), m') \<and>
           length m' = length m \<and> cellSum m' = cellSum m + 1 \<and>
           diagSum m' = diagSum m + (if int pred = y then 1 else 0)"
proof -
  let ?row = "m ! nat y"
  let ?r = "js_store ?row pred (js_read0 ?row pred + 1)"
  have y: "nat y < length m" using assms by simp
  have acc: "accumulate y pred (c, m) = Inr (c + (if int pred = y then 1 else 0), m[nat y := ?r])"
    using assms by (simp add: accumulate_def Let_def)
  have cs: "cellSum (m[nat y := ?r]) = cellSum m + 1"
    using cellSum_update [OF y, of ?r] sum_list_js_store [of ?row pred] by simp
  have "js_read0 ?r (nat y) = js_read0 ?row (nat y) + (if int pred = y then 1 else 0)"
    using assms by (auto simp: js_read0_js_store)
  then have ds: "diagSum (m[nat y := ?r]) = diagSum m + (if int pred = y then 1 else 0)"
    using diagSum_update [OF y, of ?r] by simp
  show ?thesis using acc cs ds by simp
qed

lemma accumulate_bad_label:
  "y < 0 \<or> int (length m) \<le> y \<Longrightarrow> accumulate y pred (c, m) = Inl TypeError"
  by (simp add: accumulate_def)

lemma hits_Suc:
  "hits logits samples (Suc k) =
     hits logits samples k + (if int (argmax (logits k)) = label (samples ! k) then 1 else 0)"
  by (simp add: hits_def)

lemma lastUpdate_Suc:
  "Suc k \<le> n \<Longrightarrow>
   lastUpdate n (Suc k) = (if Suc k mod 10 = 0 \<or> Suc k = n then Suc k else lastUpdate n k)"
  unfolding lastUpdate_def by (auto simp: mod_Suc)

lemma runEvalUpTo_Suc:
  "runEvalUpTo infer samples (Suc k) u =
     (case runEvalUpTo infer samples k u of
        Inl e \<Rightarrow> Inl e
      | Inr st \<Rightarrow> evalStep infer samples k st)"
  by (simp add: runEvalUpTo_def iterate_snoc)

lemma runEvalUpTo_invariant:
  assumes "k \<le> length samples"
    and "\<forall>i<k. infer (inputTensor (pixels (samples ! i))) = Inr (logits i) \<and>
               0 \<le> label (samples ! i) \<and> label (samples ! i) < 10"
  shows "\<exists>m u'. runEvalUpTo infer samples k u = Inr ((hits logits samples k, m), u') \<and>
           length m = 10 \<and> cellSum m = k \<and> diagSum m = hits logits samples k \<and>
           total u' = total u \<and>
           correct u' = hits logits samples (lastUpdate (length samples) k) \<and>
           doneN u' = lastUpdate (length samples) k"
  using assms
proof (induction k)
  case 0
  show ?case
    by (simp add: runEvalUpTo_def hits_def lastUpdate_def zeroConf_def cellSum_def diagSum_def
        js_read0_def)
next
  case (Suc k)
  from Suc.prems have "k \<le> length samples" "\<forall>i<k. infer (inputTensor (pixels (samples ! i))) = Inr (logits i) \<and>
               0 \<le> label (samples ! i) \<and> label (samples ! i) < 10" by auto
  from Suc.IH [OF this] obtain m u' where
    run: "runEvalUpTo infer samples k u = Inr ((hits logits samples k, m), u')"
    and m: "length m = 10" "cellSum m = k" "diagSum m = hits logits samples k"
    and u': "total u' = total u" "correct u' = hits logits samples (lastUpdate (length samples) k)"
      "doneN u' = lastUpdate (length samples) k"
    by blast
  let ?y = "label (samples ! k)"
  let ?p = "argmax (logits k)"
  from Suc.prems have inf: "infer (inputTensor (pixels (samples ! k))) = Inr (logits k)"
    and y: "0 \<le> ?y" "?y < int (length m)" using m(1) by auto
  from accumulate_ok [OF y, of ?p "hits logits samples k"] obtain m' where
    acc: "accumulate ?y ?p (hits logits samples k, m) = Inr (hits logits samples (Suc k), m')"
    and m': "length m' = length m" "cellSum m' = cellSum m + 1"
      "diagSum m' = diagSum m + (if int ?p = ?y then 1 else 0)"
    by (auto simp: hits_Suc)
  let ?u'' = "if (k + 1) mod 10 = 0 \<or> k + 1 = length samples
      then u'\<lparr>conf := m', correct := hits logits samples (Suc k), doneN := k + 1\<rparr> else u'"
  have "runEvalUpTo infer samples (Suc k) u = Inr ((hits logits samples (Suc k), m'), ?u'')"
    by (simp add: runEvalUpTo_Suc run evalStep_def inf acc del: One_nat_def)
  moreover have "length m' = 10" "cellSum m' = Suc k" "diagSum m' = hits logits samples (Suc k)"
    using m m' by (simp_all add: hits_Suc)
  moreover have "total ?u'' = total u" using u' by simp
  moreover have "correct ?u'' = hits logits samples (lastUpdate (length samples) (Suc k))"
    "doneN ?u'' = lastUpdate (length samples) (Suc k)"
    using u' Suc.prems(1) by (simp_all add: lastUpdate_Suc)
  ultimately show ?case by blast
qed

lemma runEvalUpTo_bad_label:
  assumes "k < length samples"
    and "\<forall>i<k. infer (inputTensor (pixels (samples ! i))) = Inr (logits i) \<and>
               0 \<le> label (samples ! i) \<and> label (samples ! i) < 10"
    and "infer (inputTensor (pixels (samples ! k))) = Inr l"
    and "label (samples ! k) < 0 \<or> 10 \<le> label (samples ! k)"
  shows "runEvalUpTo infer samples (Suc k) u = Inl TypeError"
proof -
  from runEvalUpTo_invariant [OF _ assms(2), where u = u] assms(1) obtain m u' where
    run: "runEvalUpTo infer samples k u = Inr ((hits logits samples k, m), u')"
    and m: "length m = 10" by auto
  show ?thesis
    using assms(3,4) m by (simp add: runEvalUpTo_Suc run evalStep_def accumulate_bad_label)
qed

text \<open>
  Claim C4. A run starts from the all-zero 10 by 10 matrix. When the engine answers for
  each of the first \<open>k\<close> samples and their labels are digits, the run reaches the point
  after \<open>k\<close> accumulations, and there the cells of the matrix add up to \<open>k\<close> and its
  diagonal adds up to the number of those samples whose predicted class is their label.
\<close>

theorem confusion_matrix_invariant:
  assumes "k \<le> length samples"
    and "\<forall>i<k. infer (inputTensor (pixels (samples ! i))) = Inr (logits i) \<and>
               0 \<le> label (samples ! i) \<and> label (samples ! i) < 10"
  shows "\<exists>c m u'. runEvalUpTo infer samples k u = Inr ((c, m), u') \<and>
           cellSum m = k \<and>
           diagSum m = length (filter (\<lambda>i. int (argmax (logits i)) = label (samples ! i)) [0..<k])"
  using runEvalUpTo_invariant [OF assms, where u = u] unfolding hits_def by blast

text \<open>
  The theorem at three samples with the labels 3, 3 and 0 and an engine that predicts
  class 0 for each: three accumulations, one of them on the diagonal.
\<close>

theorem confusion_matrix_invariant_witness:
  "(3::nat) \<le> length [\<lparr>label = 3, pixels = []\<rparr>, \<lparr>label = 3, pixels = []\<rparr>, \<lparr>label = 0, pixels = []\<rparr>] \<and>
   (\<exists>c m u'. runEvalUpTo constEngine [\<lparr>label = 3, pixels = []\<rparr>, \<lparr>label = 3, pixels = []\<rparr>, \<lparr>label = 0, pixels = []\<rparr>] 3 (idleUi 3) = Inr ((c, m), u') \<and>
      cellSum m = 3 \<and> diagSum m = 1)"
proof -
  let ?s = "[\<lparr>label = 3, pixels = []\<rparr>, \<lparr>label = 3, pixels = []\<rparr>, \<lparr>label = 0, pixels = []\<rparr>]"
  have len: "(3::nat) \<le> length ?s" by simp
  have ok: "\<forall>i<3. constEngine (inputTensor (pixels (?s ! i))) = Inr [1, 0] \<and>
       0 \<le> label (?s ! i) \<and> label (?s ! i) < 10"
    by (simp add: constEngine_def All_less_Suc numeral_3_eq_3)
  have cnt: "length (filter (\<lambda>i. int (argmax [1, 0]) = label (?s ! i)) [0..<3]) = 1"
    by (simp add: argmax_def upt_rec numeral_3_eq_3)
  show ?thesis
    using confusion_matrix_invariant [OF len, of constEngine "\<lambda>i. [1, 0]" "idleUi 3"] ok cnt len
    by simp
qed

text \<open>
  Claim C5, as amended. After \<open>k \<ge> 1\<close> samples the page reports, in percent, the correct
  predictions counted at its last update (after every tenth sample and after the last
  one) over the size of the whole dataset, \<open>total\<close>. At the end of a run, where \<open>k\<close> is
  that size, this is 100 times the diagonal sum over \<open>k\<close>.
\<close>

theorem reported_accuracy:
  assumes "1 \<le> k" and "k \<le> length samples" and "total u = length samples"
    and "\<forall>i<k. infer (inputTensor (pixels (samples ! i))) = Inr (logits i) \<and>
               0 \<le> label (samples ! i) \<and> label (samples ! i) < 10"
  shows "\<exists>c m u'. runEvalUpTo infer samples k u = Inr ((c, m), u') \<and>
           accuracy u' =
             real (hits logits samples (lastUpdate (length samples) k)) / real (length samples) * 100 \<and>
           (k = length samples \<longrightarrow> accuracy u' = real (diagSum m) / real k * 100)"
proof -
  from runEvalUpTo_invariant [OF assms(2,4), where u = u] obtain m u' where
    run: "runEvalUpTo infer samples k u = Inr ((hits logits samples k, m), u')"
    and m: "diagSum m = hits logits samples k"
    and u': "total u' = total u"
      "correct u' = hits logits samples (lastUpdate (length samples) k)"
    by auto
  have n: "length samples \<noteq> 0" using assms(1,2) by auto
  have a: "accuracy u' =
      real (hits logits samples (lastUpdate (length samples) k)) / real (length samples) * 100"
    using u' assms(3) n by (simp add: accuracy_def)
  have "k = length samples \<longrightarrow> accuracy u' = real (diagSum m) / real k * 100"
    using a m by (simp add: lastUpdate_def)
  with run a show ?thesis by blast
qed

text \<open>The theorem at a whole run over three samples, one of them predicted right.\<close>

theorem reported_accuracy_witness:
  "(1::nat) \<le> 3 \<and>
   (3::nat) \<le> length [\<lparr>label = 3, pixels = []\<rparr>, \<lparr>label = 3, pixels = []\<rparr>, \<lparr>label = 0, pixels = []\<rparr>] \<and>
   total (idleUi 3) = length [\<lparr>label = 3, pixels = []\<rparr>, \<lparr>label = 3, pixels = []\<rparr>, \<lparr>label = 0, pixels = []\<rparr>] \<and>
   (\<exists>c m u'. runEvalUpTo constEngine [\<lparr>label = 3, pixels = []\<rparr>, \<lparr>label = 3, pixels = []\<rparr>, \<lparr>label = 0, pixels = []\<rparr>] 3 (idleUi 3) = Inr ((c, m), u') \<and>
      accuracy u' = 1 / 3 * 100 \<and> accuracy u' = real (diagSum m) / 3 * 100)"
proof -
  let ?s = "[\<lparr>label = 3, pixels = []\<rparr>, \<lparr>label = 3, pixels = []\<rparr>, \<lparr>label = 0, pixels = []\<rparr>]"
  have k: "(1::nat) \<le> 3" by simp
  have len: "(3::nat) \<le> length ?s" by simp
  have tot: "total (idleUi 3) = length ?s" by (simp add: idleUi_def)
  have ok: "\<forall>i<3. constEngine (inputTensor (pixels (?s ! i))) = Inr [1, 0] \<and>
       0 \<le> label (?s ! i) \<and> label (?s ! i) < 10"
    by (simp add: constEngine_def All_less_Suc numeral_3_eq_3)
  have cnt: "hits (\<lambda>i. [1, 0]) ?s (lastUpdate (length ?s) 3) = 1"
    by (simp add: hits_def lastUpdate_def argmax_def upt_rec numeral_3_eq_3)
  show ?thesis
    using reported_accuracy [OF k len tot ok] k len tot ok cnt
    by simp
qed

text \<open>
  The claim as stated fails in the middle of a run: of 20 samples, all predicted right,
  10 are processed; the diagonal sum over 10 is 1, and the page reports 50 (percent of
  the 20).
\<close>

lemma hits_const_example:
  "k \<le> 20 \<Longrightarrow> hits (\<lambda>i. [1, 0]) (replicate 20 \<lparr>label = 0, pixels = []\<rparr>) k = k"
  by (induction k) (simp_all add: hits_Suc, simp_all add: hits_def argmax_def)

theorem running_accuracy_counterexample:
  "\<not> reportsRunningAccuracy constEngine (replicate 20 \<lparr>label = 0, pixels = []\<rparr>) (idleUi 20) 10"
proof -
  let ?s = "replicate 20 \<lparr>label = 0, pixels = []\<rparr>"
  have ok: "\<forall>i<10. constEngine (inputTensor (pixels (?s ! i))) = Inr [1, 0] \<and>
       0 \<le> label (?s ! i) \<and> label (?s ! i) < 10"
    by (simp add: constEngine_def)
  from runEvalUpTo_invariant [OF _ ok, where u = "idleUi 20"] obtain m u' where
    run: "runEvalUpTo constEngine ?s 10 (idleUi 20) = Inr ((hits (\<lambda>i. [1, 0]) ?s 10, m), u')"
    and m: "diagSum m = hits (\<lambda>i. [1, 0]) ?s 10"
    and u': "total u' = total (idleUi 20)"
      "correct u' = hits (\<lambda>i. [1, 0]) ?s (lastUpdate (length ?s) 10)"
    by auto
  have "accuracy u' = 50"
    using u' by (simp add: accuracy_def idleUi_def lastUpdate_def hits_const_example)
  moreover have "real (diagSum m) / real 10 = 1"
    using m by (simp add: hits_const_example)
  ultimately show ?thesis
    by (simp add: reportsRunningAccuracy_def run)
qed
section \<open>Properties of the audio and image conditioning\<close>

lemma math_round_of_nat: "math_round (real n) = int n"
  unfolding math_round_def by linarith

lemma resampleLinear_length:
  "length (resampleLinear d input inputRate outputRate) =
     (if inputRate = outputRate then length input
      else nat (max 1 (math_round (dmul d (real (length input)) (ddiv d outputRate inputRate)))))"
  by (simp add: resampleLinear_def Let_def)

lemma resampledLength_equal_rates:
  "0 < r \<Longrightarrow> resampledLength n r r = max 1 n"
  by (simp add: resampledLength_def math_round_of_nat)

lemma math_round_near:
  assumes "\<bar>p - x\<bar> \<le> e" and "awayFromTies x e"
  shows "math_round p = math_round x"
proof -
  have e: "0 \<le> e" using assms(1) by linarith
  have lo: "\<lfloor>x + 1 / 2 - e\<rfloor> \<le> \<lfloor>p + 1 / 2\<rfloor>" and hi: "\<lfloor>p + 1 / 2\<rfloor> \<le> \<lfloor>x + 1 / 2 + e\<rfloor>"
    using assms(1) by (intro floor_mono; linarith)+
  have lo': "\<lfloor>x + 1 / 2 - e\<rfloor> \<le> \<lfloor>x + 1 / 2\<rfloor>" and hi': "\<lfloor>x + 1 / 2\<rfloor> \<le> \<lfloor>x + 1 / 2 + e\<rfloor>"
    using e by (intro floor_mono; linarith)+
  show ?thesis
    using lo hi lo' hi' assms(2) unfolding math_round_def awayFromTies_def by linarith
qed

lemma double_product_error:
  fixes n q r p u :: real
  assumes "0 \<le> n" and "0 \<le> q" and "0 \<le> u" and "u \<le> 1"
    and r: "\<bar>r - q\<bar> \<le> u * q"
    and p: "\<bar>p - n * r\<bar> \<le> u * (n * r)"
  shows "\<bar>p - n * q\<bar> \<le> 3 * u * (n * q)"
proof -
  have r_le: "r \<le> q + u * q" using r by linarith
  have "n * r \<le> n * (q + u * q)" using r_le assms(1) by (rule mult_left_mono)
  then have "u * (n * r) \<le> u * (n * (q + u * q))" using assms(3) by (rule mult_left_mono)
  also have "\<dots> = u * (n * q) + u * (u * (n * q))" by (simp add: algebra_simps)
  also have "u * (u * (n * q)) \<le> 1 * (u * (n * q))"
    using assms(1-4) by (intro mult_right_mono) simp_all
  finally have 1: "u * (n * r) \<le> 2 * (u * (n * q))" by (simp add: algebra_simps)
  have "\<bar>n * r - n * q\<bar> = n * \<bar>r - q\<bar>"
    using assms(1) by (simp add: abs_mult flip: right_diff_distrib)
  also have "\<dots> \<le> n * (u * q)" using r assms(1) by (rule mult_left_mono)
  finally have 2: "\<bar>n * r - n * q\<bar> \<le> u * (n * q)" by (simp add: mult.left_commute)
  have "\<bar>p - n * q\<bar> \<le> \<bar>p - n * r\<bar> + \<bar>n * r - n * q\<bar>" by linarith
  then show ?thesis using p 1 2 by linarith
qed

lemma unitRoundoff_bounds: "0 \<le> unitRoundoff" "unitRoundoff \<le> 1"
  by (simp_all add: unitRoundoff_def)


text \<open>
  Claim C8, as amended. For positive sample rates, \<open>resampleLinear\<close> returns the input
  itself at equal rates (the empty input with its 0 samples), and at different rates an
  output of \<open>max 1 (round p)\<close> samples, where \<open>p\<close> is the double-precision product
  \<^verbatim>\<open>input.length * (outputRate / inputRate)\<close>. With a quotient and a product that are
  within the unit roundoff of the exact ones, this is the length
  \<open>max 1 (round (inputLength \<cdot> targetRate / sourceRate))\<close> of the specification whenever that
  exact value is away from the ties \<open>k + 1/2\<close> by more than three unit roundoffs of
  itself, and the input is not the empty one at equal rates.
\<close>

theorem resampleLinear_output_length:
  assumes "0 < inputRate" and "0 < outputRate"
    and "\<bar>ddiv d outputRate inputRate - outputRate / inputRate\<bar>
           \<le> unitRoundoff * (outputRate / inputRate)"
    and "\<bar>dmul d (real (length input)) (ddiv d outputRate inputRate)
             - real (length input) * ddiv d outputRate inputRate\<bar>
           \<le> unitRoundoff * (real (length input) * ddiv d outputRate inputRate)"
  shows "length (resampleLinear d input inputRate outputRate) =
           (if inputRate = outputRate then length input
            else nat (max 1 (math_round
                   (dmul d (real (length input)) (ddiv d outputRate inputRate))))) \<and>
         (\<not> (inputRate = outputRate \<and> input = []) \<and>
          awayFromTies (real (length input) * (outputRate / inputRate))
            (3 * unitRoundoff * (real (length input) * (outputRate / inputRate))) \<longrightarrow>
          length (resampleLinear d input inputRate outputRate) =
            resampledLength (length input) inputRate outputRate)"
proof (intro conjI impI)
  show "length (resampleLinear d input inputRate outputRate) =
           (if inputRate = outputRate then length input
            else nat (max 1 (math_round
                   (dmul d (real (length input)) (ddiv d outputRate inputRate)))))"
    by (rule resampleLinear_length)
next
  let ?n = "real (length input)" and ?q = "outputRate / inputRate"
  let ?p = "dmul d ?n (ddiv d outputRate inputRate)"
  assume a: "\<not> (inputRate = outputRate \<and> input = []) \<and>
    awayFromTies (?n * ?q) (3 * unitRoundoff * (?n * ?q))"
  show "length (resampleLinear d input inputRate outputRate) =
      resampledLength (length input) inputRate outputRate"
  proof (cases "inputRate = outputRate")
    case True
    with a have "input \<noteq> []" by simp
    then have "max 1 (length input) = length input" by (cases input) simp_all
    then show ?thesis
      using True assms(1) by (simp add: resampleLinear_length resampledLength_equal_rates)
  next
    case False
    have q: "0 \<le> ?q" using assms(1,2) by simp
    have away: "awayFromTies (?n * ?q) (3 * unitRoundoff * (?n * ?q))"
      using a by blast
    have "\<bar>?p - ?n * ?q\<bar> \<le> 3 * unitRoundoff * (?n * ?q)"
      by (rule double_product_error [OF _ q unitRoundoff_bounds assms(3,4)]) simp
    then have "math_round ?p = math_round (?n * ?q)"
      using away by (rule math_round_near)
    then show ?thesis
      using False by (simp add: resampleLinear_length resampledLength_def)
  qed
qed

text \<open>
  The theorem at six samples taken from 16 kHz down to 8 kHz, where the quotient 1/2 and
  the product 3 are exact doubles: three samples.
\<close>

theorem resampleLinear_output_length_witness:
  "(0::real) < 16000 \<and> (0::real) < 8000 \<and>
   ddiv exactDoubles 8000 16000 = 1 / 2 \<and>
   dmul exactDoubles (real (length [1, 2, 3, 4, 5, 6 :: real])) (1 / 2) = 3 \<and>
   awayFromTies 3 (3 * unitRoundoff * 3) \<and>
   length (resampleLinear exactDoubles [1, 2, 3, 4, 5, 6] 16000 8000) = 3 \<and>
   resampledLength (length [1, 2, 3, 4, 5, 6 :: real]) 16000 8000 = 3"
proof -
  have h: "(0::real) < 16000" "(0::real) < 8000" by simp_all
  have ops: "ddiv exactDoubles 8000 16000 = 1 / 2"
    "dmul exactDoubles (real (length [1, 2, 3, 4, 5, 6 :: real])) (1 / 2) = 3"
    by (simp_all add: exactDoubles_def)
  have away: "awayFromTies 3 (3 * unitRoundoff * 3)"
    by (simp add: awayFromTies_def unitRoundoff_def)
  have len: "resampledLength (length [1, 2, 3, 4, 5, 6 :: real]) 16000 8000 = 3"
    by (simp add: resampledLength_def math_round_def)
  have e1: "\<bar>ddiv exactDoubles 8000 16000 - 8000 / 16000\<bar> \<le> unitRoundoff * (8000 / 16000)"
    by (simp add: exactDoubles_def unitRoundoff_def)
  have e2: "\<bar>dmul exactDoubles (real (length [1, 2, 3, 4, 5, 6 :: real])) (ddiv exactDoubles 8000 16000)
             - real (length [1, 2, 3, 4, 5, 6 :: real]) * ddiv exactDoubles 8000 16000\<bar>
           \<le> unitRoundoff * (real (length [1, 2, 3, 4, 5, 6 :: real]) * ddiv exactDoubles 8000 16000)"
    by (simp add: exactDoubles_def unitRoundoff_def)
  have away': "awayFromTies (real (length [1, 2, 3, 4, 5, 6 :: real]) * (8000 / 16000))
      (3 * unitRoundoff * (real (length [1, 2, 3, 4, 5, 6 :: real]) * (8000 / 16000)))"
    using away by simp
  from resampleLinear_output_length [OF h e1 e2] away'
  have "length (resampleLinear exactDoubles [1, 2, 3, 4, 5, 6] 16000 8000) =
      resampledLength (length [1, 2, 3, 4, 5, 6 :: real]) 16000 8000"
    by simp
  then show ?thesis using h ops away len by simp
qed

text \<open>
  The claim as stated fails for the empty input at equal rates: the output has no sample,
  and the length of the claim is 1.
\<close>

theorem resampleLinear_output_length_counterexample:
  "length (resampleLinear exactDoubles [] 16000 16000) \<noteq>
   resampledLength (length ([] :: real list)) 16000 16000"
  by (simp add: resampleLinear_def resampledLength_def math_round_def)


text \<open>
  At a tie the rounding of the two operations decides. For 45 samples from rate 10 to
  rate 7 the exact value is 31.5, which rounds to 32; the double quotient is just below
  7/10 and the double product just below 31.5, both within the unit roundoff, and the
  output has 31 samples.
\<close>

lemma resampleLinear_tie_example:
  "\<bar>ddiv tieDoubles 7 10 - 7 / 10\<bar> \<le> unitRoundoff * (7 / 10) \<and>
   \<bar>dmul tieDoubles 45 (ddiv tieDoubles 7 10) - 45 * ddiv tieDoubles 7 10\<bar>
      \<le> unitRoundoff * (45 * ddiv tieDoubles 7 10) \<and>
   length (resampleLinear tieDoubles (replicate 45 0) 10 7) = 31 \<and>
   resampledLength 45 10 7 = 32 \<and>
   \<not> awayFromTies (45 * (7 / 10)) (3 * unitRoundoff * (45 * (7 / 10)))"
proof -
  have q: "ddiv tieDoubles 7 10 = 6305039478318694 / 2 ^ 53"
    by (simp add: tieDoubles_def)
  have p: "dmul tieDoubles 45 (6305039478318694 / 2 ^ 53) = 8866461766385663 / 2 ^ 48"
    by (simp add: tieDoubles_def)
  have 1: "\<bar>ddiv tieDoubles 7 10 - 7 / 10\<bar> \<le> unitRoundoff * (7 / 10)"
    unfolding q by (simp add: unitRoundoff_def)
  have 2: "\<bar>dmul tieDoubles 45 (ddiv tieDoubles 7 10) - 45 * ddiv tieDoubles 7 10\<bar>
      \<le> unitRoundoff * (45 * ddiv tieDoubles 7 10)"
    unfolding q p by (simp add: unitRoundoff_def)
  have pq: "dmul tieDoubles (real (length (replicate 45 (0::real)))) (ddiv tieDoubles 7 10) =
      8866461766385663 / 2 ^ 48"
    by (simp add: tieDoubles_def)
  have 3: "length (resampleLinear tieDoubles (replicate 45 0) 10 7) = 31"
    by (simp only: resampleLinear_length pq) (simp add: math_round_def)
  have 4: "resampledLength 45 10 7 = 32"
    by (simp add: resampledLength_def math_round_def)
  have 5: "\<not> awayFromTies (45 * (7 / 10)) (3 * unitRoundoff * (45 * (7 / 10)))"
    by (simp add: awayFromTies_def unitRoundoff_def)
  from 1 2 3 4 5 show ?thesis by blast
qed

lemma fold_scanPixel_blank:
  "\<forall>x \<in> set xs. \<not> isInk c x y \<Longrightarrow> fold (scanPixel c y) xs box = box"
  by (induction xs arbitrary: box) (simp_all add: scanPixel_def split: prod.splits)

lemma fold_rows_blank:
  "\<forall>y \<in> set ys. \<forall>x \<in> set xs. \<not> isInk c x y \<Longrightarrow>
   fold (\<lambda>y box. fold (scanPixel c y) xs box) ys box = box"
  by (induction ys arbitrary: box) (simp_all add: fold_scanPixel_blank)

lemma boundingBox_blank:
  assumes "\<forall>y < height c. \<forall>x < width c. \<not> isInk c x y"
  shows "boundingBox c = (int (width c), int (height c), -1, -1)"
  unfolding boundingBox_def using assms by (intro fold_rows_blank) simp

lemma whitePixel_blank: "\<forall>y < height whitePixel. \<forall>x < width whitePixel. \<not> isInk whitePixel x y"
  by (simp add: whitePixel_def isInk_def inkValue_def)

text \<open>
  Claim C6, as amended. For every source canvas of non-zero width and height whose 2D
  context is readable and in which no pixel has an ink value above 0.12, when the
  browser gives the preview canvas a 2D context, \<open>preprocessMnistFromCanvas\<close> returns a
  tensor of 784 zeros with \<open>hasInk = false\<close>, and does not throw (whatever the doubles
  \<open>d\<close> are: the blank path computes none).
\<close>

theorem blank_canvas_preprocess:
  assumes "hasContext c" and "0 < width c" and "0 < height c" and "previewContext b"
    and "\<forall>y < height c. \<forall>x < width c. \<not> isInk c x y"
  shows "\<exists>r. preprocessMnistFromCanvas d b c = Inr r \<and>
           tensorData r = replicate 784 0 \<and> hasInk r = False"
  using assms(1-4) by (simp add: preprocessMnistFromCanvas_def boundingBox_blank [OF assms(5)])

text \<open>The theorem at the canvas of one white pixel.\<close>

theorem blank_canvas_preprocess_witness:
  "hasContext whitePixel \<and> 0 < width whitePixel \<and> 0 < height whitePixel \<and>
   previewContext plainBrowser \<and> \<not> isInk whitePixel 0 0 \<and>
   (\<exists>r. preprocessMnistFromCanvas exactDoubles plainBrowser whitePixel = Inr r \<and>
        tensorData r = replicate 784 0 \<and> hasInk r = False)"
proof -
  have h: "hasContext whitePixel" "0 < width whitePixel" "0 < height whitePixel"
    "previewContext plainBrowser"
    by (simp_all add: whitePixel_def plainBrowser_def)
  have "\<not> isInk whitePixel 0 0" by (simp add: whitePixel_def isInk_def inkValue_def)
  then show ?thesis
    using blank_canvas_preprocess [OF h whitePixel_blank] h by simp
qed

text \<open>
  The claim as stated fails when the preview canvas gets no context: the source canvas
  is readable and blank, and the function throws before it looks at the bounding box.
\<close>

theorem blank_canvas_preprocess_counterexample:
  "hasContext whitePixel \<and> \<not> isInk whitePixel 0 0 \<and>
   preprocessMnistFromCanvas exactDoubles noPreviewBrowser whitePixel = Inl CouldNotCreatePreview"
proof -
  have "boundingBox whitePixel = (1, 1, -1, -1)"
    using boundingBox_blank [OF whitePixel_blank] by (simp add: whitePixel_def)
  then show ?thesis
    by (simp add: preprocessMnistFromCanvas_def noPreviewBrowser_def whitePixel_def isInk_def
        inkValue_def)
qed

section \<open>Properties of the mel filterbank\<close>

lemma hzToMel_0: "hzToMel 0 = 0"
  by (simp add: hzToMel_def)

lemma length_melPoints: "length melPoints = 130"
  by (simp add: melPoints_def N_MELS_def Let_def)

lemma length_melBins: "length melBins = 130"
  by (simp add: melBins_def length_melPoints)

lemma melPoints_nth:
  "i < 130 \<Longrightarrow> melPoints ! i = real i * hzToMel 8000 / 129"
  by (simp add: melPoints_def N_MELS_def SAMPLE_RATE_def Let_def hzToMel_0)

lemma hzToMel_8000_nonneg: "0 \<le> hzToMel 8000"
  by (simp add: hzToMel_def)

lemma melToHz_mono: "a \<le> b \<Longrightarrow> melToHz a \<le> melToHz b"
  by (simp add: melToHz_def powr_mono divide_right_mono)

lemma melBins_nth:
  "i < 130 \<Longrightarrow> melBins ! i = \<lfloor>1025 * melToHz (real i * hzToMel 8000 / 129) / 16000\<rfloor>"
  by (simp add: melBins_def length_melPoints melPoints_nth N_FFT_def SAMPLE_RATE_def)

lemma melBins_mono:
  assumes "i \<le> j" and "j < 130"
  shows "melBins ! i \<le> melBins ! j"
proof -
  have "real i * hzToMel 8000 / 129 \<le> real j * hzToMel 8000 / 129"
    using assms(1) hzToMel_8000_nonneg by (simp add: mult_right_mono divide_right_mono)
  then have "melToHz (real i * hzToMel 8000 / 129) \<le> melToHz (real j * hzToMel 8000 / 129)"
    by (rule melToHz_mono)
  then show ?thesis
    using assms by (simp add: melBins_nth floor_mono divide_right_mono)
qed

lemma length_setBin: "length (setBin k v f) = length f"
  by (simp add: setBin_def)

lemma length_fold_setBin: "length (fold (\<lambda>k. setBin k (g k)) ks f) = length f"
  by (induction ks arbitrary: f) (simp_all add: length_setBin)

lemma nth_fold_setBin:
  "length f = 513 \<Longrightarrow> k < 513 \<Longrightarrow>
   fold (\<lambda>k. setBin k (g k)) [a..b] f ! k =
     (if a \<le> int k \<and> int k \<le> b then g (int k) else f ! k)"
proof (induction a b arbitrary: f rule: upto.induct)
  case (1 i j)
  show ?case
  proof (cases "i \<le> j")
    case True
    then have up: "[i..j] = i # [i + 1..j]" by (simp add: upto_rec1)
    have len: "length (setBin i (g i) f) = 513" using "1.prems" by (simp add: length_setBin)
    have "fold (\<lambda>k. setBin k (g k)) [i..j] f ! k =
          (if i + 1 \<le> int k \<and> int k \<le> j then g (int k) else setBin i (g i) f ! k)"
      using "1.IH" [OF True len "1.prems"(2)] by (simp add: up)
    also have "\<dots> = (if i \<le> int k \<and> int k \<le> j then g (int k) else f ! k)"
    proof (cases "int k = i")
      case True
      then have "nat i = k" "0 \<le> i" "i < 513" using "1.prems" by auto
      then show ?thesis
        using True \<open>i \<le> j\<close> "1.prems" by (simp add: setBin_def N_FFT_def)
    next
      case False
      then have "setBin i (g i) f ! k = f ! k"
        by (auto simp: setBin_def nth_list_update)
      then show ?thesis using False by auto
    qed
    finally show ?thesis .
  next
    case False
    then show ?thesis by simp
  qed
qed

lemma melFilter_length: "length (melFilter l c r) = 513"
  by (simp add: melFilter_def Let_def length_fold_setBin N_FFT_def)

lemma melFilter_degenerate: "r \<le> l \<Longrightarrow> melFilter l c r = replicate 513 0"
  by (simp add: melFilter_def N_FFT_def)

lemma melFilter_nth:
  assumes "l \<le> c" and "c \<le> r" and "k < 513"
  shows "melFilter l c r ! k =
           (if r \<le> l then 0
            else if c \<le> int k \<and> int k < r then of_int (r - int k) / of_int (max 1 (r - c))
            else if l \<le> int k \<and> int k < c then of_int (int k - l) / of_int (max 1 (c - l))
            else 0)"
  using assms
  by (simp add: melFilter_def Let_def nth_fold_setBin length_fold_setBin N_FFT_def)

lemma melFilter_nonneg:
  assumes "l \<le> c" and "c \<le> r" and "k < 513"
  shows "0 \<le> melFilter l c r ! k"
  unfolding melFilter_nth [OF assms] by (auto intro!: divide_nonneg_nonneg)

lemma melFilter_outside:
  assumes "l \<le> c" and "c \<le> r" and "k < 513" and "int k < l \<or> r < int k"
  shows "melFilter l c r ! k = 0"
  unfolding melFilter_nth [OF assms(1-3)] using assms by auto

lemma getMelFilters_nth:
  "m < 128 \<Longrightarrow>
   getMelFilters ! m = melFilter (melBins ! m) (melBins ! (m + 1)) (melBins ! (m + 2))"
  by (simp add: getMelFilters_def N_MELS_def binOr0_def length_melBins nth_append
      del: upt_Suc)

lemma length_getMelFilters: "length getMelFilters = 128"
  by (simp add: getMelFilters_def N_MELS_def)

lemma melBins_2_small: "melBins ! 2 < 512"
proof -
  let ?x = "87 / 7 :: real"
  have x: "1 + 8000 / 700 = ?x" by simp
  have "2 * hzToMel 8000 / 129 / 2595 = log 10 ?x * (2 / 129)"
    by (simp add: hzToMel_def)
  then have "10 powr (2 * hzToMel 8000 / 129 / 2595) = 10 powr (log 10 ?x * (2 / 129))"
    by (rule arg_cong)
  also have "\<dots> = (10 powr log 10 ?x) powr (2 / 129)"
    by (rule powr_powr [symmetric])
  also have "\<dots> = ?x powr (2 / 129)"
    by simp
  also have "\<dots> \<le> ?x powr (1 / 2)"
    by (rule powr_mono) simp_all
  also have "\<dots> = sqrt ?x" by (simp add: powr_half_sqrt)
  also have "\<dots> \<le> sqrt 16" by (rule real_sqrt_le_mono) simp
  also have "\<dots> = 4"
    using real_sqrt_abs [of 4] by simp
  finally have "melToHz (2 * hzToMel 8000 / 129) \<le> 2100"
    by (simp add: melToHz_def)
  then have "1025 * melToHz (2 * hzToMel 8000 / 129) / 16000 < 512" by simp
  then have "\<lfloor>1025 * melToHz (real 2 * hzToMel 8000 / 129) / 16000\<rfloor> < 512"
    by (simp add: floor_less_iff)
  then show ?thesis using melBins_nth [of 2] by simp
qed

text \<open>
  Claim C7. Each of the 128 filters of \<open>getMelFilters\<close> has 513 weights, one per FFT bin;
  every weight is non-negative, and the weight is zero at every bin outside of the range
  from the left to the right boundary bin of the filter (\<open>melBins ! m\<close> and
  \<open>melBins ! (m + 2)\<close> for the filter at index \<open>m\<close>, counted from 0). Each filter is
  built from its three boundary bins by \<open>melFilter\<close>, which in the degenerate case
  \<open>right \<le> left\<close> returns the all-zero filter.
\<close>

theorem mel_filter_coverage:
  assumes "m < 128" and "k < 513"
  shows "length getMelFilters = 128 \<and> length (getMelFilters ! m) = 513 \<and>
         0 \<le> getMelFilters ! m ! k \<and>
         (int k < melBins ! m \<or> melBins ! (m + 2) < int k \<longrightarrow> getMelFilters ! m ! k = 0) \<and>
         getMelFilters ! m = melFilter (melBins ! m) (melBins ! (m + 1)) (melBins ! (m + 2)) \<and>
         (right \<le> left \<longrightarrow> melFilter left center right = replicate 513 0)"
proof -
  have l: "melBins ! m \<le> melBins ! (m + 1)" and r: "melBins ! (m + 1) \<le> melBins ! (m + 2)"
    using assms(1) by (simp_all add: melBins_mono)
  show ?thesis
    using melFilter_nonneg [OF l r assms(2)] melFilter_outside [OF l r assms(2)]
      melFilter_degenerate [of right left center] assms(1)
    by (simp add: getMelFilters_nth length_getMelFilters melFilter_length)
qed

text \<open>
  The theorem at the first filter and the last bin, which lies to the right of the
  filter, and at the boundaries 7, 7, 7 for the degenerate case.
\<close>

theorem mel_filter_coverage_witness:
  "(0::nat) < 128 \<and> (512::nat) < 513 \<and> melBins ! (0 + 2) < int 512 \<and> (7::int) \<le> 7 \<and>
   0 \<le> getMelFilters ! 0 ! 512 \<and> getMelFilters ! 0 ! 512 = 0 \<and>
   melFilter 7 7 7 = replicate 513 0"
proof -
  have h: "(0::nat) < 128" "(512::nat) < 513" by simp_all
  have small: "melBins ! (0 + 2) < int 512"
    using melBins_2_small by (simp only: add_0 of_nat_numeral)
  note t = mel_filter_coverage [OF h, of 7 7 7]
  have "0 \<le> getMelFilters ! 0 ! 512" using t by blast
  moreover have "getMelFilters ! 0 ! 512 = 0" using t small by blast
  moreover have "melFilter 7 7 7 = replicate 513 0" using t order_refl [of "7::int"] by blast
  ultimately show ?thesis using h small by blast
qed

section \<open>Properties of the Fourier transform\<close>

lemma brev_less: "brev k i < 2 ^ k"
proof (induction k arbitrary: i)
  case 0
  show ?case by simp
next
  case (Suc k)
  have "i mod 2 = 0 \<or> i mod 2 = 1" by auto
  then show ?case using Suc [of "i div 2"] by auto
qed

lemma brev_top:
  "brev (Suc k) i = 2 * brev k (i mod 2 ^ k) + (i div 2 ^ k) mod 2"
proof (induction k arbitrary: i)
  case 0
  show ?case by simp
next
  case (Suc k)
  have a: "(i mod (2 * 2 ^ k)) div 2 = (i div 2) mod 2 ^ k"
    by (simp add: mod_mult2_eq)
  have b: "(i mod (2 * 2 ^ k)) mod 2 = i mod 2"
    by (simp add: mod_mod_cancel)
  have c: "(i div 2) div 2 ^ k = i div 2 ^ Suc k"
    by (simp add: div_mult2_eq)
  have "brev (Suc (Suc k)) i = (i mod 2) * 2 ^ Suc k + brev (Suc k) (i div 2)" by simp
  also have "\<dots> = (i mod 2) * 2 ^ Suc k + (2 * brev k ((i div 2) mod 2 ^ k) + (i div 2 ^ Suc k) mod 2)"
    by (simp only: Suc c)
  also have "\<dots> = 2 * brev (Suc k) (i mod 2 ^ Suc k) + (i div 2 ^ Suc k) mod 2"
    by (simp add: a b)
  finally show ?case .
qed

lemma brev_brev: "i < 2 ^ k \<Longrightarrow> brev k (brev k i) = i"
proof (induction k arbitrary: i)
  case 0
  then show ?case by simp
next
  case (Suc k)
  let ?b = "i mod 2" and ?q = "i div 2"
  have q: "?q < 2 ^ k" using Suc.prems by auto
  have b: "?b < 2" by simp
  let ?y = "?b * 2 ^ k + brev k ?q"
  have y_mod: "?y mod 2 ^ k = brev k ?q" using brev_less [of k ?q] by simp
  have y_div: "?y div 2 ^ k = ?b" using brev_less [of k ?q] by simp
  have "brev (Suc k) (brev (Suc k) i) = brev (Suc k) ?y" by simp
  also have "\<dots> = 2 * brev k (?y mod 2 ^ k) + (?y div 2 ^ k) mod 2" by (rule brev_top)
  also have "\<dots> = 2 * ?q + ?b" by (simp only: y_mod y_div Suc.IH [OF q]) simp
  also have "\<dots> = i" by simp
  finally show ?case .
qed

lemma and_pow2_small: "j < 2 ^ n \<Longrightarrow> and j (2 ^ n) = (0::nat)"
  by (simp add: and_exp_eq_0_iff_not_bit bit_iff_odd)

lemma xor_pow2_small: "j < 2 ^ n \<Longrightarrow> xor j (2 ^ n) = j + (2::nat) ^ n"
  by (simp add: disjunctive_add_eq_xor and_pow2_small)

lemma pow2_add_eq_xor: "r < 2 ^ n \<Longrightarrow> 2 ^ n + r = xor (2 ^ n) (r::nat)"
  by (simp add: disjunctive_add_eq_xor and_pow2_small and.commute)

lemma xor_pow2_big: "r < 2 ^ n \<Longrightarrow> xor (2 ^ n + r) (2 ^ n) = (r::nat)"
  by (simp add: pow2_add_eq_xor xor.commute xor.left_commute)

lemma and_pow2_big: "r < 2 ^ n \<Longrightarrow> and (2 ^ n + r) (2 ^ n) \<noteq> (0::nat)"
proof -
  assume r: "r < 2 ^ n"
  have "bit (2 ^ n + r) n"
    using r by (simp add: bit_iff_odd)
  then show ?thesis by (simp add: and_exp_eq_0_iff_not_bit)
qed

lemma revinc_simps:
  "revinc bt j = (if and j bt \<noteq> 0 then revinc (drop_bit 1 bt) (xor j bt) else xor j bt)"
  unfolding revinc_def by (subst bitReverseCarry.simps) simp

lemma revinc_brev:
  "Suc i < 2 ^ k \<Longrightarrow> revinc (2 ^ (k - 1)) (brev k i) = brev k (Suc i)"
proof (induction k arbitrary: i)
  case 0
  then show ?case by simp
next
  case (Suc k)
  let ?r = "brev k (i div 2)"
  have r: "?r < 2 ^ k" by (rule brev_less)
  show ?case
  proof (cases "even i")
    case True
    then have j: "brev (Suc k) i = ?r" by simp
    have "revinc (2 ^ k) ?r = ?r + 2 ^ k"
      using r by (subst revinc_simps) (simp add: and_pow2_small xor_pow2_small)
    moreover have "brev (Suc k) (Suc i) = 2 ^ k + ?r"
      using True by (auto elim!: evenE)
    ultimately show ?thesis using j by simp
  next
    case False
    then have j: "brev (Suc k) i = 2 ^ k + ?r" by (simp add: odd_iff_mod_2_eq_one)
    from False Suc.prems obtain k' where k: "k = Suc k'"
      by (cases k) auto
    have half: "Suc (i div 2) < 2 ^ k" using False Suc.prems by (auto elim!: oddE)
    have "revinc (2 ^ k) (2 ^ k + ?r) = revinc (drop_bit 1 (2 ^ k)) ?r"
      using r by (subst revinc_simps) (simp add: and_pow2_big xor_pow2_big)
    also have "drop_bit 1 ((2::nat) ^ k) = 2 ^ (k - 1)"
      by (simp add: k drop_bit_eq_div)
    also have "revinc (2 ^ (k - 1)) ?r = brev k (Suc (i div 2))"
      by (rule Suc.IH [OF half])
    finally have "revinc (2 ^ k) (brev (Suc k) i) = brev k (Suc (i div 2))"
      by (simp only: j)
    moreover have "brev (Suc k) (Suc i) = brev k (Suc (i div 2))"
      using False by (auto elim!: oddE)
    ultimately show ?thesis by simp
  qed
qed

lemma brev_eq_iff:
  assumes "p < 2 ^ k" and "q < 2 ^ k"
  shows "brev k p = q \<longleftrightarrow> p = brev k q"
  using assms brev_brev by auto

lemma partialRev_noswap:
  assumes "I < 2 ^ k" and "p < 2 ^ k" and "brev k I \<le> I"
  shows "partialRev k (Suc I) a p = partialRev k I a p"
proof -
  consider "p = I" | "p \<noteq> I" "brev k p = I" | "p \<noteq> I" "brev k p \<noteq> I" by blast
  then show ?thesis
  proof cases
    case 1
    then show ?thesis using assms(3) by (auto simp: partialRev_def)
  next
    case 2
    then have "p = brev k I" using brev_eq_iff [OF assms(2,1)] by simp
    with 2 assms(3) show ?thesis by (auto simp: partialRev_def)
  next
    case 3
    then show ?thesis by (auto simp: partialRev_def less_Suc_eq)
  qed
qed

lemma partialRev_swap:
  assumes "I < 2 ^ k" and "p < 2 ^ k" and "I < brev k I" and "length b = 2 ^ k"
    and b: "\<forall>q < 2 ^ k. b ! q = partialRev k I a q"
  shows "b[I := b ! brev k I, brev k I := b ! I] ! p = partialRev k (Suc I) a p"
proof -
  let ?J = "brev k I"
  have J: "?J < 2 ^ k" by (rule brev_less)
  have bJ: "brev k ?J = I" using assms(1) by (rule brev_brev)
  have bI: "b ! I = a ! I" using b assms(1,3) by (simp add: partialRev_def)
  have bJ': "b ! ?J = a ! ?J" using b J assms(3) bJ by (simp add: partialRev_def)
  consider "p = ?J" | "p \<noteq> ?J" "p = I" | "p \<noteq> ?J" "p \<noteq> I" by blast
  then show ?thesis
  proof cases
    case 1
    then show ?thesis using J assms(4) bI bJ by (simp add: partialRev_def)
  next
    case 2
    then show ?thesis using assms(1,3,4) bJ' by (simp add: partialRev_def)
  next
    case 3
    then have "brev k p \<noteq> I" using brev_eq_iff [OF assms(2,1)] by simp
    with 3 show ?thesis using b assms(2) by (simp add: partialRev_def less_Suc_eq)
  qed
qed

lemma swapCells_inside: "j < length a \<Longrightarrow> swapCells a i j = Inr (a[i := a ! j, j := a ! i])"
  by (simp add: swapCells_def)

lemma drop_bit_1_pow2: "0 < k \<Longrightarrow> drop_bit 1 ((2::nat) ^ k) = 2 ^ (k - 1)"
  by (cases k) (simp_all add: drop_bit_eq_div)

lemma bitReverseStep_brev:
  assumes "1 \<le> I" and "I < 2 ^ k" and "length re = 2 ^ k" and "length im = 2 ^ k"
  shows "bitReverseStep (2 ^ k) I (brev k (I - 1), re, im) =
           Inr (brev k I,
                if I < brev k I then re[I := re ! brev k I, brev k I := re ! I] else re,
                if I < brev k I then im[I := im ! brev k I, brev k I := im ! I] else im)"
proof -
  have k: "0 < k" using assms(1,2) by (cases k) auto
  have "Suc (I - 1) < 2 ^ k" using assms(1,2) by simp
  from revinc_brev [OF this] have "revinc (2 ^ (k - 1)) (brev k (I - 1)) = brev k I"
    using assms(1) by simp
  then have r: "revinc (2 ^ (k - 1)) (brev k (I - 1)) = brev k I" .
  have d: "drop_bit 1 ((2::nat) ^ k) = 2 ^ (k - 1)" by (rule drop_bit_1_pow2 [OF k])
  obtain j1 b where c: "bitReverseCarry (brev k (I - 1)) (2 ^ (k - 1)) = (j1, b)"
    using prod.exhaust by blast
  have x: "xor j1 b = brev k I"
    using r unfolding revinc_def c by simp
  have J: "brev k I < length re" "brev k I < length im"
    using assms(3,4) brev_less [of k I] by simp_all
  have "bitReverseStep (2 ^ k) I (brev k (I - 1), re, im) =
      (if I < brev k I
       then (case swapCells re I (brev k I) of
               Inl e \<Rightarrow> Inl e
             | Inr re' \<Rightarrow>
                 (case swapCells im I (brev k I) of
                    Inl e \<Rightarrow> Inl e
                  | Inr im' \<Rightarrow> Inr (brev k I, re', im')))
       else Inr (brev k I, re, im))"
    by (simp only: bitReverseStep_def prod.case d c Let_def x)
  then show ?thesis
    using J by (simp add: swapCells_inside)
qed

lemma bitReverse_loop:
  assumes "1 \<le> I" and "I \<le> 2 ^ k" and "length re = 2 ^ k" and "length im = 2 ^ k"
  shows "\<exists>re' im'. iterate (bitReverseStep (2 ^ k)) [1..<I] (0, re, im) =
             Inr (brev k (I - 1), re', im') \<and>
           length re' = 2 ^ k \<and> length im' = 2 ^ k \<and>
           (\<forall>p < 2 ^ k. re' ! p = partialRev k I re p \<and> im' ! p = partialRev k I im p)"
  using assms(1,2)
proof (induction I rule: nat_induct_at_least)
  case base
  have "brev k 0 = 0" by (induction k) simp_all
  moreover have "\<And>p. brev k p < 1 \<Longrightarrow> p < 2 ^ k \<Longrightarrow> p = 0"
    using brev_eq_iff [of _ k 0] \<open>brev k 0 = 0\<close> by auto
  ultimately show ?case
    using assms(3,4) by (auto simp: partialRev_def)
next
  case (Suc I)
  then have I: "I < 2 ^ k" "1 \<le> I" by simp_all
  from Suc.IH I obtain re' im' where
    it: "iterate (bitReverseStep (2 ^ k)) [1..<I] (0, re, im) = Inr (brev k (I - 1), re', im')"
    and len: "length re' = 2 ^ k" "length im' = 2 ^ k"
    and inv: "\<forall>p < 2 ^ k. re' ! p = partialRev k I re p \<and> im' ! p = partialRev k I im p"
    by auto
  let ?J = "brev k I"
  let ?re = "if I < ?J then re'[I := re' ! ?J, ?J := re' ! I] else re'"
  let ?im = "if I < ?J then im'[I := im' ! ?J, ?J := im' ! I] else im'"
  have up: "[1..<Suc I] = [1..<I] @ [I]" using I(2) by simp
  have "iterate (bitReverseStep (2 ^ k)) [1..<Suc I] (0, re, im) = Inr (?J, ?re, ?im)"
    unfolding up by (simp only: iterate_snoc it sum.case bitReverseStep_brev [OF I(2,1) len])
  moreover have "length ?re = 2 ^ k" "length ?im = 2 ^ k" using len by simp_all
  moreover have "\<forall>p < 2 ^ k. ?re ! p = partialRev k (Suc I) re p \<and> ?im ! p = partialRev k (Suc I) im p"
  proof (intro allI impI)
    fix p :: nat
    assume p: "p < 2 ^ k"
    show "?re ! p = partialRev k (Suc I) re p \<and> ?im ! p = partialRev k (Suc I) im p"
    proof (cases "I < ?J")
      case True
      have "\<forall>q < 2 ^ k. re' ! q = partialRev k I re q" "\<forall>q < 2 ^ k. im' ! q = partialRev k I im q"
        using inv by simp_all
      then show ?thesis
        using True partialRev_swap [OF I(1) p True len(1)] partialRev_swap [OF I(1) p True len(2)]
        by simp
    next
      case False
      then have "?J \<le> I" by simp
      then have "partialRev k (Suc I) re p = partialRev k I re p"
        "partialRev k (Suc I) im p = partialRev k I im p"
        by (simp_all add: partialRev_noswap [OF I(1) p])
      then show ?thesis
        using False inv p by simp
    qed
  qed
  ultimately show ?case by (intro exI [of _ ?re] exI [of _ ?im]) simp
qed

lemma bitReversePermutation_spec:
  assumes "length re = 2 ^ k" and "length im = 2 ^ k"
  shows "\<exists>re' im'. bitReversePermutation re im = Inr (re', im') \<and>
           length re' = 2 ^ k \<and> length im' = 2 ^ k \<and>
           (\<forall>p < 2 ^ k. re' ! p = re ! brev k p \<and> im' ! p = im ! brev k p)"
proof -
  have "1 \<le> (2::nat) ^ k" by simp
  from bitReverse_loop [OF this order_refl assms] obtain re' im' where
    "iterate (bitReverseStep (2 ^ k)) [1..<2 ^ k] (0, re, im) = Inr (brev k (2 ^ k - 1), re', im')"
    "length re' = 2 ^ k" "length im' = 2 ^ k"
    "\<forall>p < 2 ^ k. re' ! p = partialRev k (2 ^ k) re p \<and> im' ! p = partialRev k (2 ^ k) im p"
    by blast
  then show ?thesis
    using assms(1) by (simp add: bitReversePermutation_def partialRev_def)
qed

lemma butterfly_spec:
  assumes "i + j + len div 2 < n" and "0 < len div 2"
    and "length re = n" and "length im = n"
  shows "\<exists>re' im'. butterfly len i j (re, im, Re w, Im w) =
             Inr (re', im', Re (w * twiddle len), Im (w * twiddle len)) \<and>
           length re' = n \<and> length im' = n \<and>
           (\<forall>p < n. cx re' im' p =
              (if p = i + j then cx re im (i + j) + w * cx re im (i + j + len div 2)
               else if p = i + j + len div 2
                 then cx re im (i + j) - w * cx re im (i + j + len div 2)
               else cx re im p))"
proof -
  let ?p = "i + j" and ?q = "i + j + len div 2"
  let ?vRe = "re ! ?q * Re w - im ! ?q * Im w"
  let ?vIm = "re ! ?q * Im w + im ! ?q * Re w"
  let ?re = "re[?p := re ! ?p + ?vRe, ?q := re ! ?p - ?vRe]"
  let ?im = "im[?p := im ! ?p + ?vIm, ?q := im ! ?p - ?vIm]"
  have ne: "?p \<noteq> ?q" using assms(2) by simp
  have pn: "?p < n" using assms(1) by simp
  have "butterfly len i j (re, im, Re w, Im w) =
          Inr (?re, ?im, Re (w * twiddle len), Im (w * twiddle len))"
    using assms(1,3,4)
    by (simp add: butterfly_def Let_def twiddle_def cis.ctr mult.commute)
  moreover have "length ?re = n" "length ?im = n" using assms(3,4) by simp_all
  moreover have "\<forall>p < n. cx ?re ?im p =
              (if p = ?p then cx re im ?p + w * cx re im ?q
               else if p = ?q then cx re im ?p - w * cx re im ?q
               else cx re im p)"
    using ne pn assms(1,3,4)
    by (auto simp: cx_def complex_eq_iff nth_list_update mult.commute)
  ultimately show ?thesis by blast
qed

lemma butterfly_loop:
  assumes "J \<le> len div 2" and "i + 2 * (len div 2) \<le> n"
    and "length re = n" and "length im = n"
  shows "\<exists>re' im'. iterate (butterfly len i) [0..<J] (re, im, 1, 0) =
             Inr (re', im', Re (twiddle len ^ J), Im (twiddle len ^ J)) \<and>
           length re' = n \<and> length im' = n \<and>
           (\<forall>p < n. cx re' im' p = blockVal len i J (cx re im) p)"
  using assms(1)
proof (induction J)
  case 0
  show ?case using assms(3,4) by (auto simp: blockVal_def Let_def)
next
  case (Suc J)
  let ?h = "len div 2"
  let ?w = "twiddle len ^ J"
  let ?z = "cx re im"
  from Suc obtain re' im' where
    it: "iterate (butterfly len i) [0..<J] (re, im, 1, 0) = Inr (re', im', Re ?w, Im ?w)"
    and len: "length re' = n" "length im' = n"
    and inv: "\<forall>p < n. cx re' im' p = blockVal len i J ?z p"
    by auto
  have q: "i + J + ?h < n" and h: "0 < ?h" using Suc.prems assms(2) by simp_all
  from butterfly_spec [OF q h len, of ?w] obtain re'' im'' where
    bf: "butterfly len i J (re', im', Re ?w, Im ?w) =
           Inr (re'', im'', Re (?w * twiddle len), Im (?w * twiddle len))"
    and len': "length re'' = n" "length im'' = n"
    and val: "\<forall>p < n. cx re'' im'' p =
              (if p = i + J then cx re' im' (i + J) + ?w * cx re' im' (i + J + ?h)
               else if p = i + J + ?h
                 then cx re' im' (i + J) - ?w * cx re' im' (i + J + ?h)
               else cx re' im' p)"
    by blast
  have a: "cx re' im' (i + J) = ?z (i + J)"
    using inv q Suc.prems by (simp add: blockVal_def Let_def)
  have b: "cx re' im' (i + J + ?h) = ?z (i + J + ?h)"
    using inv q Suc.prems by (simp add: blockVal_def Let_def)
  have "iterate (butterfly len i) [0..<Suc J] (re, im, 1, 0) =
          Inr (re'', im'', Re (twiddle len ^ Suc J), Im (twiddle len ^ Suc J))"
    by (simp add: iterate_snoc it bf mult.commute)
  moreover have "\<forall>p < n. cx re'' im'' p = blockVal len i (Suc J) ?z p"
  proof (intro allI impI)
    fix p assume p: "p < n"
    consider "p = i + J" | "p = i + J + ?h" | "p \<noteq> i + J" "p \<noteq> i + J + ?h" by blast
    then show "cx re'' im'' p = blockVal len i (Suc J) ?z p"
    proof cases
      case 1
      then show ?thesis using val p a b by (simp add: blockVal_def Let_def)
    next
      case 2
      then show ?thesis using val p a b h by (simp add: blockVal_def Let_def)
    next
      case 3
      then have "cx re'' im'' p = blockVal len i J ?z p" using val inv p by simp
      also have "\<dots> = blockVal len i (Suc J) ?z p"
        using 3 by (auto simp: blockVal_def Let_def less_Suc_eq)
      finally show ?thesis .
    qed
  qed
  ultimately show ?case using len' by blast
qed

lemma fft_block_spec:
  assumes "i + 2 * (len div 2) \<le> n" and "length re = n" and "length im = n"
  shows "\<exists>re' im'. fft_block len i (re, im) = Inr (re', im') \<and>
           length re' = n \<and> length im' = n \<and>
           (\<forall>p < n. cx re' im' p = blockVal len i (len div 2) (cx re im) p)"
  using butterfly_loop [OF order_refl assms] by (auto simp: fft_block_def)

lemma mod_in_block:
  assumes "b * len \<le> p" and "p < b * len + len"
  shows "p mod len = p - b * (len::nat)"
proof -
  have "p = b * len + (p - b * len)" using assms(1) by simp
  then have "p mod len = (p - b * len) mod len" by (metis mod_mult_self3)
  then show ?thesis using assms by simp
qed

lemma blockVal_stageVal:
  assumes "len = 2 * h" and "b * len \<le> p" and "p < b * len + len"
  shows "blockVal len (b * len) h z p = stageVal len z p"
proof -
  have h: "len div 2 = h" using assms(1) by simp
  have r: "p mod len = p - b * len" using assms(2,3) by (rule mod_in_block)
  have "p < b * len + h + h" using assms(1,3) by simp
  then show ?thesis
    using assms(2)
    by (auto simp: blockVal_def stageVal_def h r Let_def diff_diff_eq add.commute)
qed

lemma blockVal_outside:
  assumes "p < i \<or> i + 2 * (len div 2) \<le> p"
  shows "blockVal len i (len div 2) z p = z p"
  using assms by (auto simp: blockVal_def Let_def)

lemma stageVal_cong:
  assumes "len = 2 * h" and "0 < h" and "c * len \<le> p" and "p < B * len"
    and "\<And>q. c * len \<le> q \<Longrightarrow> q < B * len \<Longrightarrow> z' q = z q"
  shows "stageVal len z' p = stageVal len z p"
proof -
  have h: "len div 2 = h" and len: "0 < len" using assms(1,2) by simp_all
  have "c \<le> p div len" using assms(3) len
    by (metis div_le_mono div_mult_self_is_m)
  then have lo: "c * len \<le> (p div len) * len" by simp
  have "p div len < B" using assms(4) len by (simp add: div_less_iff_less_mult)
  then have "Suc (p div len) * len \<le> B * len" by (intro mult_le_mono1) simp
  then have hi: "(p div len) * len + h + h \<le> B * len" using assms(1) by simp
  have p: "p = (p div len) * len + p mod len" by simp
  have 1: "h \<le> p mod len \<Longrightarrow> c * len \<le> p - h" using lo p by linarith
  have 2: "p mod len < h \<Longrightarrow> p + h < B * len" using hi p by linarith
  show ?thesis
    using assms(3,4) 1 2 assms(5) [of p] assms(5) [of "p + h"] assms(5) [of "p - h"]
    by (auto simp: stageVal_def Let_def h)
qed

lemma fft_blocks_spec:
  assumes "len = 2 * h" and "0 < h" and "n = B * len" and "b \<le> B"
    and "length re = n" and "length im = n"
  shows "\<exists>re' im'. fft_blocks n len (b * len) (re, im) = Inr (re', im') \<and>
           length re' = n \<and> length im' = n \<and>
           (\<forall>p < n. cx re' im' p =
              (if b * len \<le> p then stageVal len (cx re im) p else cx re im p))"
  using assms(4-6)
proof (induction "B - b" arbitrary: b re im)
  case 0
  then have "b * len = n" using assms(3) by simp
  then show ?case using 0 by (subst fft_blocks.simps) auto
next
  case (Suc d)
  let ?i = "b * len"
  let ?z = "cx re im"
  have b: "b < B" "Suc b \<le> B" "d = B - Suc b" using Suc.hyps(2) by simp_all
  have i: "?i < n" "?i + len \<le> n" using b assms(1-3)
    by (simp_all add: add.commute flip: mult_Suc)
  have len: "len \<noteq> 0" "len div 2 = h" using assms(1,2) by simp_all
  from fft_block_spec [of ?i len n re im] i(2) Suc.prems(2,3) len(2) assms(1) obtain re1 im1 where
    blk: "fft_block len ?i (re, im) = Inr (re1, im1)"
    and len1: "length re1 = n" "length im1 = n"
    and val1: "\<forall>p < n. cx re1 im1 p = blockVal len ?i h ?z p"
    by auto
  from Suc.hyps(1) [OF b(3) b(2) len1] obtain re' im' where
    rest: "fft_blocks n len (Suc b * len) (re1, im1) = Inr (re', im')"
    and len': "length re' = n" "length im' = n"
    and val': "\<forall>p < n. cx re' im' p =
        (if Suc b * len \<le> p then stageVal len (cx re1 im1) p else cx re1 im1 p)"
    by blast
  have "fft_blocks n len ?i (re, im) = Inr (re', im')"
    using i(1) len(1) blk rest by (subst fft_blocks.simps) (simp add: add.commute)
  moreover have "\<forall>p < n. cx re' im' p = (if ?i \<le> p then stageVal len ?z p else ?z p)"
  proof (intro allI impI)
    fix p assume p: "p < n"
    consider "p < ?i" | "?i \<le> p" "p < ?i + len" | "Suc b * len \<le> p" by fastforce
    then show "cx re' im' p = (if ?i \<le> p then stageVal len ?z p else ?z p)"
    proof cases
      case 1
      then have "cx re' im' p = cx re1 im1 p" using val' p by simp
      also have "\<dots> = ?z p" using val1 p 1 blockVal_outside [of p ?i len] len(2) by simp
      finally show ?thesis using 1 by simp
    next
      case 2
      then have "cx re' im' p = cx re1 im1 p" using val' p by simp
      also have "\<dots> = stageVal len ?z p"
        using val1 p blockVal_stageVal [OF assms(1) 2] by simp
      finally show ?thesis using 2 by simp
    next
      case 3
      then have "cx re' im' p = stageVal len (cx re1 im1) p" using val' p by simp
      also have "\<dots> = stageVal len ?z p"
      proof (rule stageVal_cong [OF assms(1,2) 3])
        show "p < B * len" using p assms(3) by simp
      next
        fix q assume q: "Suc b * len \<le> q" "q < B * len"
        then have "?i + 2 * (len div 2) \<le> q" using len(2) assms(1) by simp
        then show "cx re1 im1 q = ?z q"
          using val1 q(2) assms(3) blockVal_outside [of q ?i len] len(2) by simp
      qed
      finally show ?thesis using 3 by simp
    qed
  qed
  ultimately show ?case using len' by blast
qed

lemma twiddle_power: "twiddle M ^ e = cis (- 2 * pi * real e / real M)"
proof -
  have "real e * (- 2 * pi / real M) = - 2 * pi * real e / real M" by simp
  then show ?thesis by (simp only: twiddle_def DeMoivre)
qed

lemma twiddle_sq: "0 < M \<Longrightarrow> twiddle (2 * M) ^ (2 * e) = twiddle M ^ e"
proof -
  assume "0 < M"
  then have "- 2 * pi * real (2 * e) / real (2 * M) = - 2 * pi * real e / real M" by simp
  then show ?thesis by (simp only: twiddle_power)
qed

lemma twiddle_full: "0 < M \<Longrightarrow> twiddle M ^ (M * e) = 1"
proof -
  assume "0 < M"
  then have "- 2 * pi * real (M * e) / real M = 2 * pi * real_of_int (- int e)" by simp
  then have "twiddle M ^ (M * e) = cis (2 * pi * real_of_int (- int e))"
    by (simp only: twiddle_power)
  also have "\<dots> = 1"
    by (rule cis_multiple_2pi) (rule Ints_of_int)
  finally show ?thesis .
qed

lemma twiddle_half: "0 < M \<Longrightarrow> twiddle (2 * M) ^ M = - 1"
proof -
  assume "0 < M"
  then have "- 2 * pi * real M / real (2 * M) = - pi" by simp
  then have "twiddle (2 * M) ^ M = cis (- pi)" by (simp only: twiddle_power)
  also have "\<dots> = - 1" by (simp add: complex_eq_iff)
  finally show ?thesis .
qed

lemma sum_split_even_odd:
  "(\<Sum>t<2 * (M::nat). f t) = (\<Sum>u<M. f (2 * u)) + (\<Sum>u<M. (f (2 * u + 1) :: complex))"
  by (induction M) (simp_all add: algebra_simps)

lemma subdft_lower:
  assumes "0 < M"
  shows "subdft x (2 * M) r S j =
           subdft x M r (2 * S) j + twiddle (2 * M) ^ j * subdft x M (r + S) (2 * S) j"
proof -
  have e: "twiddle (2 * M) ^ (j * (2 * u)) = twiddle M ^ (j * u)" for u
    using twiddle_sq [OF assms, of "j * u"] by (simp add: mult.left_commute)
  have o: "twiddle (2 * M) ^ (j * (2 * u + 1)) = twiddle (2 * M) ^ j * twiddle M ^ (j * u)" for u
    using e [of u] by (simp add: power_add distrib_left)
  have "subdft x (2 * M) r S j =
      (\<Sum>u<M. x (r + S * (2 * u)) * twiddle (2 * M) ^ (j * (2 * u))) +
      (\<Sum>u<M. x (r + S * (2 * u + 1)) * twiddle (2 * M) ^ (j * (2 * u + 1)))"
    unfolding subdft_def by (rule sum_split_even_odd)
  also have "\<dots> = (\<Sum>u<M. x (r + 2 * S * u) * twiddle M ^ (j * u)) +
      (\<Sum>u<M. twiddle (2 * M) ^ j * (x (r + S + 2 * S * u) * twiddle M ^ (j * u)))"
    by (simp only: e o) (simp add: algebra_simps)
  finally show ?thesis
    by (simp add: subdft_def sum_distrib_left)
qed

lemma subdft_upper:
  assumes "0 < M"
  shows "subdft x (2 * M) r S (j + M) =
           subdft x M r (2 * S) j - twiddle (2 * M) ^ j * subdft x M (r + S) (2 * S) j"
proof -
  have e: "twiddle (2 * M) ^ ((j + M) * (2 * u)) = twiddle M ^ (j * u)" for u
  proof -
    have "twiddle (2 * M) ^ ((j + M) * (2 * u)) = twiddle M ^ (j * u + M * u)"
      using twiddle_sq [OF assms, of "(j + M) * u"] by (simp add: algebra_simps)
    also have "\<dots> = twiddle M ^ (j * u)"
      using twiddle_full [OF assms, of u] by (simp add: power_add)
    finally show ?thesis .
  qed
  have o: "twiddle (2 * M) ^ ((j + M) * (2 * u + 1)) = - (twiddle (2 * M) ^ j * twiddle M ^ (j * u))" for u
  proof -
    have "twiddle (2 * M) ^ ((j + M) * (2 * u + 1)) =
        twiddle (2 * M) ^ ((j + M) * (2 * u)) * (twiddle (2 * M) ^ j * twiddle (2 * M) ^ M)"
      by (simp add: power_add distrib_left)
    then show ?thesis by (simp only: e twiddle_half [OF assms]) simp
  qed
  have "subdft x (2 * M) r S (j + M) =
      (\<Sum>u<M. x (r + S * (2 * u)) * twiddle (2 * M) ^ ((j + M) * (2 * u))) +
      (\<Sum>u<M. x (r + S * (2 * u + 1)) * twiddle (2 * M) ^ ((j + M) * (2 * u + 1)))"
    unfolding subdft_def by (rule sum_split_even_odd)
  also have "\<dots> = (\<Sum>u<M. x (r + 2 * S * u) * twiddle M ^ (j * u)) +
      (\<Sum>u<M. - (twiddle (2 * M) ^ j * (x (r + S + 2 * S * u) * twiddle M ^ (j * u))))"
    by (simp only: e o) (simp add: algebra_simps)
  finally show ?thesis
    by (simp add: subdft_def sum_distrib_left sum_negf)
qed

lemma stageInv_step:
  assumes "s < k" and inv: "stageInv k s x z"
    and z': "\<forall>p < 2 ^ k. z' p = stageVal (2 ^ Suc s) z p"
  shows "stageInv k (Suc s) x z'"
  unfolding stageInv_def
proof (intro allI impI)
  fix b j :: nat
  assume b: "b < 2 ^ (k - Suc s)" and j: "j < 2 ^ Suc s"
  define m where "m = k - Suc s"
  have km: "k - s = Suc m" "k = m + Suc s" using assms(1) by (simp_all add: m_def)
  let ?h = "(2::nat) ^ s" and ?len = "(2::nat) ^ Suc s"
  let ?p = "b * ?len + j"
  let ?r = "brev m b"
  have p: "?p < 2 ^ k"
  proof -
    have "?p < Suc b * ?len" using j by simp
    also have "\<dots> \<le> 2 ^ m * ?len" using b unfolding m_def [symmetric]
      by (intro mult_le_mono1) simp
    also have "\<dots> = 2 ^ k" by (simp add: km(2) power_add)
    finally show ?thesis .
  qed
  have pmod: "?p mod ?len = j" using j by simp
  have h: "?len div 2 = ?h" by simp
  have b0: "2 * b < 2 ^ (k - s)" "2 * b + 1 < 2 ^ (k - s)"
    using b unfolding km(1) m_def [symmetric] by simp_all
  have r0: "brev (Suc m) (2 * b) = ?r" "brev (Suc m) (2 * b + 1) = ?r + 2 ^ m"
    by simp_all
  have lower: "z (2 * b * ?h + i) = subdft x ?h ?r (2 * 2 ^ m) i"
    and upper: "z ((2 * b + 1) * ?h + i) = subdft x ?h (?r + 2 ^ m) (2 * 2 ^ m) i"
    if "i < ?h" for i
    using inv [unfolded stageInv_def, rule_format, OF b0(1) that]
      inv [unfolded stageInv_def, rule_format, OF b0(2) that]
    by (simp_all only: r0 km(1) power_Suc)
  show "z' ?p = subdft x (2 ^ Suc s) (brev (k - Suc s) b) (2 ^ (k - Suc s)) j"
  proof (cases "j < ?h")
    case True
    have "z' ?p = z ?p + twiddle ?len ^ j * z (?p + ?h)"
      using z' p True by (simp only: stageVal_def Let_def pmod h) simp
    also have "?p = 2 * b * ?h + j" by simp
    also have "2 * b * ?h + j + ?h = (2 * b + 1) * ?h + j" by simp
    also have "z (2 * b * ?h + j) + twiddle ?len ^ j * z ((2 * b + 1) * ?h + j) =
        subdft x (2 * ?h) ?r (2 ^ m) j"
      by (simp only: lower [OF True] upper [OF True] subdft_lower [of ?h, simplified] power_Suc)
    finally show ?thesis by (simp add: m_def mult_ac)
  next
    case False
    define i where "i = j - ?h"
    have i: "i < ?h" "j = i + ?h" using False j by (simp_all add: i_def)
    have "z' ?p = z (?p - ?h) - twiddle ?len ^ (j - ?h) * z ?p"
      using z' p False by (simp only: stageVal_def Let_def pmod h) simp
    also have "?p - ?h = 2 * b * ?h + i" using i by simp
    also have "?p = (2 * b + 1) * ?h + i" using i by simp
    also have "j - ?h = i" by (simp add: i_def)
    also have "z (2 * b * ?h + i) - twiddle ?len ^ i * z ((2 * b + 1) * ?h + i) =
        subdft x (2 * ?h) ?r (2 ^ m) (i + ?h)"
      by (simp only: lower [OF i(1)] upper [OF i(1)] subdft_upper [of ?h, simplified] power_Suc)
    finally show ?thesis by (simp add: m_def i(2) mult_ac add_ac)
  qed
qed

lemma fft_stages_done: "n < len \<Longrightarrow> fft_stages n len st = Inr st"
  by (subst fft_stages.simps) simp

lemma fft_stages_next:
  assumes "len \<le> n" and "fft_blocks n len 0 st = Inr st'" and "0 < len" and "len < 2 ^ 30"
  shows "fft_stages n len st = fft_stages n (2 * len) st'"
  using assms by (subst fft_stages.simps) simp

lemma fft_stages_wrap:
  assumes "len \<le> n" and "fft_blocks n len 0 st = Inr st'" and "2 ^ 30 \<le> len"
  shows "fft_stages n len st = Inl DoesNotEnd"
  using assms by (subst fft_stages.simps) simp

lemma fft_stage_spec:
  assumes "s < k" and "length re = 2 ^ k" and "length im = 2 ^ k"
  shows "\<exists>re' im'. fft_blocks (2 ^ k) (2 ^ Suc s) 0 (re, im) = Inr (re', im') \<and>
           length re' = 2 ^ k \<and> length im' = 2 ^ k \<and>
           (\<forall>p < 2 ^ k. cx re' im' p = stageVal (2 ^ Suc s) (cx re im) p)"
proof -
  have "k = (k - Suc s) + Suc s" using assms(1) by simp
  then have n: "(2::nat) ^ k = 2 ^ (k - Suc s) * 2 ^ Suc s"
    by (subst power_add [symmetric]) simp
  have len: "(2::nat) ^ Suc s = 2 * 2 ^ s" by simp
  from fft_blocks_spec [OF len _ n, of 0 re im] assms(2,3) show ?thesis
    by simp
qed

lemma fft_stages_spec:
  assumes "k < 30" and "s \<le> k" and "length re = 2 ^ k" and "length im = 2 ^ k"
    and "stageInv k s x (cx re im)"
  shows "\<exists>re' im'. fft_stages (2 ^ k) (2 ^ Suc s) (re, im) = Inr (re', im') \<and>
           length re' = 2 ^ k \<and> length im' = 2 ^ k \<and> stageInv k k x (cx re' im')"
  using assms(2-5)
proof (induction "k - s" arbitrary: s re im)
  case 0
  then have "s = k" by simp
  then show ?case using 0 by (simp add: fft_stages_done)
next
  case (Suc d)
  then have s: "s < k" "d = k - Suc s" "Suc s \<le> k" by simp_all
  from fft_stage_spec [OF s(1) Suc.prems(2,3)] obtain re1 im1 where
    blk: "fft_blocks (2 ^ k) (2 ^ Suc s) 0 (re, im) = Inr (re1, im1)"
    and len1: "length re1 = 2 ^ k" "length im1 = 2 ^ k"
    and val: "\<forall>p < 2 ^ k. cx re1 im1 p = stageVal (2 ^ Suc s) (cx re im) p"
    by blast
  have inv1: "stageInv k (Suc s) x (cx re1 im1)"
    using s(1) Suc.prems(4) val by (rule stageInv_step)
  from Suc.hyps(1) [OF s(2,3) len1 inv1] obtain re' im' where
    rest: "fft_stages (2 ^ k) (2 ^ Suc (Suc s)) (re1, im1) = Inr (re', im')"
    and res: "length re' = 2 ^ k" "length im' = 2 ^ k" "stageInv k k x (cx re' im')"
    by blast
  have le: "(2::nat) ^ Suc s \<le> 2 ^ k" using s(3) by (intro power_increasing) simp_all
  have small: "(2::nat) ^ Suc s < 2 ^ 30"
    using s(3) assms(1) by (intro power_strict_increasing) simp_all
  have "fft_stages (2 ^ k) (2 ^ Suc s) (re, im) = fft_stages (2 ^ k) (2 * 2 ^ Suc s) (re1, im1)"
    by (rule fft_stages_next [OF le blk _ small]) simp
  then have "fft_stages (2 ^ k) (2 ^ Suc s) (re, im) = Inr (re', im')"
    using rest by simp
  with res show ?case by blast
qed

lemma fft_stages_diverges:
  assumes "30 \<le> k" and "s < 30" and "length re = 2 ^ k" and "length im = 2 ^ k"
  shows "fft_stages (2 ^ k) (2 ^ Suc s) (re, im) = Inl DoesNotEnd"
  using assms(2-4)
proof (induction "29 - s" arbitrary: s re im)
  case 0
  then have s: "s = 29" "s < k" using assms(1) by simp_all
  from fft_stage_spec [OF s(2) "0.prems"(2,3)] obtain re1 im1 where
    blk: "fft_blocks (2 ^ k) (2 ^ Suc s) 0 (re, im) = Inr (re1, im1)" by blast
  have le: "(2::nat) ^ Suc s \<le> 2 ^ k" using s(2) by (intro power_increasing) simp_all
  have big: "2 ^ 30 \<le> (2::nat) ^ Suc s" by (simp add: s(1))
  show ?case
    by (rule fft_stages_wrap [OF le blk big])
next
  case (Suc d)
  then have s: "s < 29" "d = 29 - Suc s" "Suc s < 30" "s < k" using assms(1) by simp_all
  from fft_stage_spec [OF s(4) Suc.prems(2,3)] obtain re1 im1 where
    blk: "fft_blocks (2 ^ k) (2 ^ Suc s) 0 (re, im) = Inr (re1, im1)"
    and len1: "length re1 = 2 ^ k" "length im1 = 2 ^ k"
    by blast
  have rest: "fft_stages (2 ^ k) (2 ^ Suc (Suc s)) (re1, im1) = Inl DoesNotEnd"
    by (rule Suc.hyps(1) [OF s(2,3) len1])
  have le: "(2::nat) ^ Suc s \<le> 2 ^ k" using s(4) by (intro power_increasing) simp_all
  have small: "(2::nat) ^ Suc s < 2 ^ 30"
    using s(3) by (intro power_strict_increasing) simp_all
  have "fft_stages (2 ^ k) (2 ^ Suc s) (re, im) = fft_stages (2 ^ k) (2 * 2 ^ Suc s) (re1, im1)"
    by (rule fft_stages_next [OF le blk _ small]) simp
  then show ?case using rest by simp
qed

lemma brev_0: "brev k 0 = 0"
  by (induction k) simp_all

lemma stageInv_initial:
  assumes "\<forall>p < 2 ^ k. z p = x (brev k p)"
  shows "stageInv k 0 x z"
  using assms by (simp add: stageInv_def subdft_def)

lemma stageInv_final:
  assumes "stageInv k k x z" and "j < 2 ^ k"
  shows "z j = (\<Sum>t<2 ^ k. x t * twiddle (2 ^ k) ^ (j * t))"
  using assms by (simp add: stageInv_def subdft_def)

lemma twiddle_exp:
  "twiddle N ^ (j * t) = exp (- 2 * of_real pi * \<i> * of_nat j * of_nat t / of_nat N)"
proof -
  have "\<i> * complex_of_real (- 2 * pi * real (j * t) / real N) =
      - 2 * of_real pi * \<i> * of_nat j * of_nat t / of_nat N"
    by simp
  then show ?thesis
    by (simp only: twiddle_power cis_conv_exp)
qed

lemma dft_eq:
  assumes "length re = N" and "length im = N"
  shows "dft (complexes re im) j = (\<Sum>t<N. cx re im t * twiddle N ^ (j * t))"
proof -
  have len: "length (complexes re im) = N" using assms by (simp add: complexes_def)
  have "(complexes re im) ! t = cx re im t" if "t < N" for t
    using that assms by (simp add: complexes_def cx_def)
  then show ?thesis
    unfolding dft_def len by (intro sum.cong) (simp_all add: twiddle_exp)
qed

lemma fftInPlace_dft:
  assumes "length re = 2 ^ k" and "length im = 2 ^ k" and "k < 30"
  shows "\<exists>re' im'. fftInPlace re im = Inr (re', im') \<and>
           length re' = 2 ^ k \<and> length im' = 2 ^ k \<and>
           (\<forall>j < 2 ^ k. Complex (re' ! j) (im' ! j) = dft (complexes re im) j)"
proof -
  from bitReversePermutation_spec [OF assms(1,2)] obtain re1 im1 where
    rev: "bitReversePermutation re im = Inr (re1, im1)"
    and len1: "length re1 = 2 ^ k" "length im1 = 2 ^ k"
    and val1: "\<forall>p < 2 ^ k. re1 ! p = re ! brev k p \<and> im1 ! p = im ! brev k p"
    by blast
  have "stageInv k 0 (cx re im) (cx re1 im1)"
    using val1 by (intro stageInv_initial) (simp add: cx_def)
  from fft_stages_spec [OF assms(3) _ len1 this] obtain re' im' where
    st: "fft_stages (2 ^ k) (2 ^ Suc 0) (re1, im1) = Inr (re', im')"
    and len': "length re' = 2 ^ k" "length im' = 2 ^ k"
    and inv: "stageInv k k (cx re im) (cx re' im')"
    by blast
  have "fftInPlace re im = Inr (re', im')"
    using st by (simp add: fftInPlace_def rev assms(1))
  moreover have "\<forall>j < 2 ^ k. Complex (re' ! j) (im' ! j) = dft (complexes re im) j"
    using stageInv_final [OF inv] dft_eq [OF assms(1,2)] by (simp add: cx_def)
  ultimately show ?thesis using len' by blast
qed

lemma fftInPlace_diverges:
  assumes "length re = 2 ^ k" and "length im = 2 ^ k" and "30 \<le> k"
  shows "fftInPlace re im = Inl DoesNotEnd"
proof -
  from bitReversePermutation_spec [OF assms(1,2)] obtain re1 im1 where
    rev: "bitReversePermutation re im = Inr (re1, im1)"
    and len1: "length re1 = 2 ^ k" "length im1 = 2 ^ k"
    by blast
  have "fft_stages (2 ^ k) (2 ^ Suc 0) (re1, im1) = Inl DoesNotEnd"
    by (rule fft_stages_diverges [OF assms(3) _ len1]) simp
  then show ?thesis by (simp add: fftInPlace_def rev assms(1))
qed

text \<open>
  Claim C1, as amended. For arrays \<open>re\<close> and \<open>im\<close> of the same length \<open>N = 2 ^ k\<close> below
  \<open>2 ^ 30\<close>, \<open>fftInPlace\<close> (which starts with \<open>bitReversePermutation\<close>) returns, and
  the two arrays then hold the real and imaginary parts of the forward discrete Fourier
  transform of the complex input, \<open>output[j] = \<Sum>n. x[n] \<cdot> exp(-2\<pi>i \<cdot> j \<cdot> n / N)\<close>, with no
  normalisation factor. (Over the reals; the rounding of the Float32 cells is not
  modelled.)
\<close>

theorem fftInPlace_computes_dft:
  assumes "length re = 2 ^ k" and "length im = 2 ^ k" and "k < 30"
  shows "\<exists>re' im'. fftInPlace re im = Inr (re', im') \<and>
           length re' = 2 ^ k \<and> length im' = 2 ^ k \<and>
           (\<forall>j < 2 ^ k. Complex (re' ! j) (im' ! j) = dft (complexes re im) j)"
  using assms by (rule fftInPlace_dft)

text \<open>The transform of the two samples 1 and 2, computed by the model.\<close>

lemma fftInPlace_example: "fftInPlace [1, 2] [0, 0] = Inr ([3, - 1], [0, 0])"
  by (simp add: fftInPlace_def bitReversePermutation_def bitReverseStep_def
      bitReverseCarry.simps fft_stages.simps fft_blocks.simps fft_block_def butterfly_def
      swapCells_def Let_def drop_bit_eq_div)

text \<open>
  The claim as stated fails for the power of two \<open>N = 2 ^ 30\<close>: after the stage with
  \<open>len = 2 ^ 30\<close> the 32-bit shift \<^verbatim>\<open>len <<= 1\<close> gives \<open>-2 ^ 31\<close>, and the function
  does not return.
\<close>

theorem fftInPlace_computes_dft_counterexample:
  "length (replicate (2 ^ 30) (0::real)) = 2 ^ 30 \<and>
   fftInPlace (replicate (2 ^ 30) 0) (replicate (2 ^ 30) 0) = Inl DoesNotEnd"
  using fftInPlace_diverges [of "replicate (2 ^ 30) 0" 30 "replicate (2 ^ 30) 0"]
  by simp

text \<open>The theorem at the two samples 1 and 2: the transform is 3 and -1.\<close>

theorem fftInPlace_computes_dft_witness:
  "length [1, 2 :: real] = 2 ^ 1 \<and> length [0, 0 :: real] = 2 ^ 1 \<and> (1::nat) < 30 \<and>
   fftInPlace [1, 2] [0, 0] = Inr ([3, - 1], [0, 0]) \<and>
   dft (complexes [1, 2] [0, 0]) 0 = 3 \<and> dft (complexes [1, 2] [0, 0]) 1 = - 1"
proof -
  have h: "length [1, 2 :: real] = 2 ^ 1" "length [0, 0 :: real] = 2 ^ 1" "(1::nat) < 30"
    by simp_all
  from fftInPlace_computes_dft [OF h] obtain re' im' where
    r: "fftInPlace [1, 2] [0, 0] = Inr (re', im')"
    and v: "\<forall>j < 2 ^ 1. Complex (re' ! j) (im' ! j) = dft (complexes [1, 2] [0, 0]) j"
    by blast
  from r have e: "re' = [3, - 1]" "im' = [0, 0]" by (simp_all add: fftInPlace_example)
  have "Complex (re' ! 0) (im' ! 0) = dft (complexes [1, 2] [0, 0]) 0"
    "Complex (re' ! 1) (im' ! 1) = dft (complexes [1, 2] [0, 0]) 1"
    using v by simp_all
  then have "dft (complexes [1, 2] [0, 0]) 0 = 3" "dft (complexes [1, 2] [0, 0]) 1 = - 1"
    by (simp_all add: e complex_eq_iff)
  then show ?thesis using h fftInPlace_example by simp
qed

section \<open>Properties of the mel spectrogram\<close>

lemma length_melFrame: "length (melFrame padded t) = 2 ^ 10"
  by (simp add: melFrame_def N_FFT_def Let_def)

lemma framePower_returns: "\<exists>pwr. framePower padded t = Inr pwr"
proof -
  have "length (replicate N_FFT (0::real)) = 2 ^ 10" by (simp add: N_FFT_def)
  from fftInPlace_dft [OF length_melFrame [of padded t] this] obtain re' im' where
    "fftInPlace (melFrame padded t) (replicate N_FFT 0) = Inr (re', im')" by auto
  then show ?thesis by (simp add: framePower_def)
qed

lemma length_fold_band_update:
  "length (fold (\<lambda>m out. out[m * 32 + t := g m]) ms out) = length out"
  by (induction ms arbitrary: out) simp_all

lemma nth_fold_band_update:
  assumes "t < 32" and "i < length out"
  shows "fold (\<lambda>m out. out[m * 32 + t := g m]) [0..<M] out ! i =
           (if i mod 32 = t \<and> i div 32 < M then g (i div 32) else out ! i)"
proof (induction M)
  case 0
  show ?case by simp
next
  case (Suc M)
  have idx: "i = M * 32 + t \<longleftrightarrow> i mod 32 = t \<and> i div 32 = M"
    using assms by auto
  show ?case
    using Suc.IH idx assms(2)
    by (auto simp: nth_list_update less_Suc_eq length_fold_band_update)
qed

lemma melFrameStep_spec:
  assumes "t < 32" and "length out = 4096"
  shows "\<exists>out'. melFrameStep (paddedSamples samples16k) t out = Inr out' \<and>
           length out' = 4096 \<and>
           (\<forall>i < 4096. out' ! i =
              (if i mod 32 = t then melValue samples16k (i div 32) t else out ! i))"
proof -
  from framePower_returns obtain pwr where
    p: "framePower (paddedSamples samples16k) t = Inr pwr" by blast
  let ?out = "fold (\<lambda>m out. out[m * 32 + t := melEnergy pwr (getMelFilters ! m)]) [0..<128] out"
  have "melFrameStep (paddedSamples samples16k) t out = Inr ?out"
    by (simp add: melFrameStep_def p N_FRAMES_def N_MELS_def)
  moreover have "length ?out = 4096" using assms(2) by (simp add: length_fold_band_update)
  moreover have "\<forall>i < 4096. ?out ! i =
      (if i mod 32 = t then melValue samples16k (i div 32) t else out ! i)"
  proof (intro allI impI)
    fix i :: nat assume i: "i < 4096"
    then have "i div 32 < 128" by simp
    then show "?out ! i = (if i mod 32 = t then melValue samples16k (i div 32) t else out ! i)"
      using nth_fold_band_update [OF assms(1), of i out _ 128] i assms(2)
      by (simp add: melValue_def p)
  qed
  ultimately show ?thesis by blast
qed

lemma melSpectrogram_frames:
  assumes "T \<le> 32"
  shows "\<exists>out. iterate (melFrameStep (paddedSamples samples16k)) [0..<T] (replicate 4096 0) = Inr out \<and>
           length out = 4096 \<and>
           (\<forall>i < 4096. out ! i = (if i mod 32 < T then melValue samples16k (i div 32) (i mod 32) else 0))"
  using assms
proof (induction T)
  case 0
  show ?case by simp
next
  case (Suc T)
  then obtain out where
    it: "iterate (melFrameStep (paddedSamples samples16k)) [0..<T] (replicate 4096 0) = Inr out"
    and len: "length out = 4096"
    and val: "\<forall>i < 4096. out ! i = (if i mod 32 < T then melValue samples16k (i div 32) (i mod 32) else 0)"
    by auto
  from Suc.prems have T: "T < 32" by simp
  from melFrameStep_spec [OF T len, of samples16k] obtain out' where
    st: "melFrameStep (paddedSamples samples16k) T out = Inr out'"
    and len': "length out' = 4096"
    and val': "\<forall>i < 4096. out' ! i = (if i mod 32 = T then melValue samples16k (i div 32) T else out ! i)"
    by blast
  have "iterate (melFrameStep (paddedSamples samples16k)) [0..<Suc T] (replicate 4096 0) = Inr out'"
    by (simp add: iterate_snoc it st)
  moreover have "\<forall>i < 4096. out' ! i = (if i mod 32 < Suc T then melValue samples16k (i div 32) (i mod 32) else 0)"
    using val val' by (auto simp: less_Suc_eq)
  ultimately show ?case using len' by blast
qed

text \<open>
  Claim C3. For every input array, of any length (the empty one too),
  \<open>melSpectrogram128x32From16k\<close> returns an array of exactly
  \<open>N_MELS \<cdot> N_FRAMES = 128 \<cdot> 32 = 4096\<close> values, and the value of mel band \<open>m\<close> and
  frame \<open>t\<close> (the energy of the power spectrum of frame \<open>t\<close> under filter \<open>m\<close>) is at
  index \<open>m \<cdot> 32 + t\<close>.
\<close>

theorem melSpectrogram_shape:
  "\<exists>out. melSpectrogram128x32From16k samples16k = Inr out \<and>
     length out = N_MELS * N_FRAMES \<and> N_MELS * N_FRAMES = 4096 \<and>
     (\<forall>m < N_MELS. \<forall>t < N_FRAMES. out ! (m * 32 + t) = melValue samples16k m t)"
proof -
  from melSpectrogram_frames [OF order_refl, of samples16k] obtain out where
    r: "melSpectrogram128x32From16k samples16k = Inr out"
    and len: "length out = 4096"
    and val: "\<forall>i < 4096. out ! i = (if i mod 32 < 32 then melValue samples16k (i div 32) (i mod 32) else 0)"
    by (auto simp: melSpectrogram128x32From16k_def N_FRAMES_def N_MELS_def)
  have "out ! (m * 32 + t) = melValue samples16k m t" if "m < 128" "t < 32" for m t
  proof -
    have "m * 32 + t < 4096" using that by simp
    then show ?thesis using val that by simp
  qed
  then show ?thesis using r len by (simp add: N_FRAMES_def N_MELS_def)
qed

text \<open>The theorem at the empty input, band 0 and frame 0.\<close>

theorem melSpectrogram_shape_witness:
  "(0::nat) < N_MELS \<and> (0::nat) < N_FRAMES \<and>
   (\<exists>out. melSpectrogram128x32From16k [] = Inr out \<and> length out = 4096 \<and>
      out ! (0 * 32 + 0) = melValue [] 0 0)"
proof -
  have h: "(0::nat) < N_MELS" "(0::nat) < N_FRAMES" by (simp_all add: N_MELS_def N_FRAMES_def)
  from melSpectrogram_shape [of "[]"] obtain out where
    "melSpectrogram128x32From16k [] = Inr out" "length out = 4096"
    "\<forall>m < N_MELS. \<forall>t < N_FRAMES. out ! (m * 32 + t) = melValue [] m t"
    by auto
  then show ?thesis using h by blast
qed

lemma dft_zero:
  assumes "\<forall>z \<in> set x. z = 0"
  shows "dft x j = 0"
  unfolding dft_def using assms by (intro sum.neutral) simp

lemma complexes_zero: "\<forall>z \<in> set (complexes (replicate n 0) (replicate n 0)). z = 0"
  by (auto simp: complexes_def zip_replicate zero_complex.code)

lemma melFrame_zero:
  assumes "\<forall>v \<in> set padded. v = 0"
  shows "melFrame padded t = replicate N_FFT 0"
proof -
  have "(case array_read padded i of None \<Rightarrow> 0 | Some v \<Rightarrow> v) = 0" for i
    using assms by (auto simp: array_read_def)
  then show ?thesis
    by (simp add: melFrame_def Let_def map_replicate_const)
qed

lemma framePower_zero:
  assumes "\<forall>v \<in> set padded. v = 0"
  shows "framePower padded t = Inr (replicate (N_FFT div 2 + 1) 0)"
proof -
  have len: "length (replicate N_FFT (0::real)) = 2 ^ 10" by (simp add: N_FFT_def)
  from fftInPlace_dft [OF len len] obtain re' im' where
    r: "fftInPlace (replicate N_FFT 0) (replicate N_FFT 0) = Inr (re', im')"
    and v: "\<forall>j < 2 ^ 10. Complex (re' ! j) (im' ! j) = dft (complexes (replicate N_FFT 0) (replicate N_FFT 0)) j"
    by auto
  have z: "re' ! j = 0 \<and> im' ! j = 0" if "j < 1024" for j
  proof -
    have "Complex (re' ! j) (im' ! j) = 0"
      using v that dft_zero [OF complexes_zero] by simp
    then show ?thesis by (simp add: complex_eq_iff)
  qed
  have "powerSpectrum (re', im') = replicate (N_FFT div 2 + 1) 0"
    unfolding powerSpectrum_def prod.case
    by (rule nth_equalityI) (simp_all add: N_FFT_def z del: upt_Suc)
  then show ?thesis
    by (simp add: framePower_def melFrame_zero [OF assms] r)
qed

lemma melEnergy_zero: "melEnergy (replicate (N_FFT div 2 + 1) 0) filt = 0"
proof -
  have "fold (\<lambda>k sum. sum + replicate 513 0 ! k * filt ! k) [0..<K] (0::real) = 0" if "K \<le> 513" for K
    using that by (induction K) simp_all
  then show ?thesis by (simp add: melEnergy_def N_FFT_def del: upt_Suc)
qed

lemma replicate_update_same: "(replicate n x)[i := x] = replicate n x"
proof (cases "i < n")
  case True
  then have "(replicate n x)[i := replicate n x ! i] = replicate n x"
    by (intro list_update_id)
  then show ?thesis using True by simp
next
  case False
  then show ?thesis by (simp add: list_update_beyond)
qed

lemma fold_update_zero:
  "fold (\<lambda>m out. out[f m := (0::real)]) ms (replicate n 0) = replicate n 0"
  by (induction ms) (simp_all add: replicate_update_same)

lemma melFrameStep_zero:
  assumes "\<forall>v \<in> set padded. v = 0"
  shows "melFrameStep padded t (replicate n 0) = Inr (replicate n 0)"
  by (simp only: melFrameStep_def framePower_zero [OF assms] sum.case melEnergy_zero
      fold_update_zero)

lemma iterate_fixed:
  "(\<And>x. body x s = Inr s) \<Longrightarrow> iterate body xs s = Inr s"
  by (induction xs) simp_all

text \<open>
  Claim C9. For every input array that consists of zeros only, of any length \<open>n\<close>, the
  mel spectrogram that \<open>melSpectrogram128x32From16k\<close> returns is entirely zero.
\<close>

theorem melSpectrogram_of_silence:
  "melSpectrogram128x32From16k (replicate n 0) = Inr (replicate (N_MELS * N_FRAMES) 0)"
proof -
  have "\<forall>v \<in> set (paddedSamples (replicate n 0)). v = 0"
    by (auto simp: paddedSamples_def)
  then show ?thesis
    unfolding melSpectrogram128x32From16k_def
    by (intro iterate_fixed melFrameStep_zero)
qed

text \<open>The theorem at one second of silence, 16000 samples.\<close>

theorem melSpectrogram_of_silence_witness:
  "melSpectrogram128x32From16k (replicate 16000 0) = Inr (replicate 4096 0)"
  using melSpectrogram_of_silence [of 16000] by (simp add: N_MELS_def N_FRAMES_def)


end
